theory Spec2Isabelle
  imports Main
begin

section \<open>The editor workspace (App component)\<close>

text \<open>
  The \<open>App\<close> component keeps its tabs in one array of objects
  \<open>{path, content, isModified, isEditing, undoStack, redoStack}\<close> and an integer
  \<open>activeTabIndex\<close> (\<open>-1\<close> when no tab is open). JavaScript strings are modelled as
  \<open>string\<close>; an array index is an \<open>int\<close>, because the code stores \<open>-1\<close> in it.
\<close>

record tab =
  path :: string
  content :: string
  isModified :: bool
  isEditing :: bool
  undoStack :: "string list"
  redoStack :: "string list"

text \<open>A search match, \<open>{ index, length }\<close>.\<close>

record match =
  index :: nat
  length_m :: nat

text \<open>
  The callback passed to \<open>setTimeout\<close> in \<open>handleTabContentChange\<close> is a closure over
  the \<open>tabs\<close> and \<open>activeTabIndex\<close> of the render in which the handler ran, and over the
  handler's argument \<open>newContent\<close>.
\<close>

record closure =
  c_tabs :: "tab list"
  c_activeTabIndex :: int
  c_newContent :: string

text \<open>
  A timeout pending in the browser: the id \<open>setTimeout\<close> returned for it, the delay it
  was given in milliseconds, and its callback.
\<close>

record timeout =
  handle :: nat
  delay :: nat
  callback :: closure

text \<open>
  The component state. \<open>undoDebounceTimer\<close> is the ref holding the id returned by the last
  \<open>setTimeout\<close> (\<open>None\<close> is \<open>null\<close>); \<open>timers\<close> is the browser's table of timeouts that are
  still pending, and \<open>nextTimerId\<close> the id the next \<open>setTimeout\<close> returns.
\<close>

record app =
  tabs :: "tab list"
  activeTabIndex :: int
  undoDebounceTimer :: "nat option"
  timers :: "timeout list"
  nextTimerId :: nat
  showSearch :: bool
  searchQuery :: string
  replaceText :: string
  searchCaseSensitive :: bool
  searchRegex :: bool
  searchMatches :: "match list"
  currentMatchIndex :: int

text \<open>\<open>xs[i]\<close> of JavaScript: \<open>undefined\<close> (here \<open>None\<close>) outside the array.\<close>

definition js_index :: "'a list \<Rightarrow> int \<Rightarrow> 'a option" where
  "js_index xs i = (if 0 \<le> i \<and> i < int (length xs) then Some (xs ! nat i) else None)"

text \<open>\<open>const activeTab = activeTabIndex >= 0 ? tabs[activeTabIndex] : null\<close>\<close>

definition activeTab :: "app \<Rightarrow> tab option" where
  "activeTab s = (if activeTabIndex s \<ge> 0 then js_index (tabs s) (activeTabIndex s) else None)"

text \<open>\<open>const editorText = activeTab?.content || ''\<close>\<close>

definition editorText :: "app \<Rightarrow> string" where
  "editorText s = (case activeTab s of None \<Rightarrow> [] | Some t \<Rightarrow> content t)"

text \<open>\<open>xs.slice(-50)\<close>: the last fifty elements.\<close>

definition slice_last :: "nat \<Rightarrow> 'a list \<Rightarrow> 'a list" where
  "slice_last n xs = drop (length xs - n) xs"

text \<open>\<open>clearTimeout(id)\<close> removes a pending timeout; an id that is not pending is ignored.\<close>

definition clearTimeout :: "nat \<Rightarrow> timeout list \<Rightarrow> timeout list" where
  "clearTimeout tid ts = filter (\<lambda>t. handle t \<noteq> tid) ts"

text \<open>
  \<open>handleTabContentChange\<close>: returns when there is no active tab; clears the timeout in the
  ref when the ref is truthy (a timeout id is a positive number); writes the new content
  into a copy of the tab array; schedules the callback and stores its id in the ref.
\<close>

definition handleTabContentChange :: "string \<Rightarrow> app \<Rightarrow> app" where
  "handleTabContentChange newContent s =
     (case activeTab s of
        None \<Rightarrow> s
      | Some t \<Rightarrow>
          let pending = (case undoDebounceTimer s of
                           None \<Rightarrow> timers s
                         | Some tid \<Rightarrow> if tid \<noteq> 0 then clearTimeout tid (timers s) else timers s);
              newTabs = (tabs s)[nat (activeTabIndex s) := t\<lparr>content := newContent, isModified := True\<rparr>];
              cb = \<lparr>c_tabs = tabs s, c_activeTabIndex = activeTabIndex s, c_newContent = newContent\<rparr>
          in s\<lparr>tabs := newTabs,
               timers := pending @ [\<lparr>handle = nextTimerId s, delay = 300, callback = cb\<rparr>],
               undoDebounceTimer := Some (nextTimerId s),
               nextTimerId := nextTimerId s + 1\<rparr>)"

text \<open>
  The body of the timeout callback. Every name it reads (\<open>tabs\<close>, \<open>activeTabIndex\<close>,
  \<open>newContent\<close>) is the closure's; only \<open>setTabs\<close> reaches the current state.
\<close>

definition timerCallback :: "closure \<Rightarrow> app \<Rightarrow> app" where
  "timerCallback c s =
     (case js_index (c_tabs c) (c_activeTabIndex c) of
        None \<Rightarrow> s
      | Some t \<Rightarrow>
          let previousContent = content t in
          if previousContent \<noteq> c_newContent c then
            let newUndoStack = slice_last 50 (undoStack t @ [previousContent]);
                updatedTabs = (c_tabs c)[nat (c_activeTabIndex c) :=
                                t\<lparr>undoStack := newUndoStack, redoStack := []\<rparr>]
            in s\<lparr>tabs := updatedTabs\<rparr>
          else s)"

text \<open>The browser runs a pending timeout: it leaves the table, then its callback runs.\<close>

definition fireTimer :: "nat \<Rightarrow> app \<Rightarrow> app" where
  "fireTimer tid s =
     (case List.find (\<lambda>t. handle t = tid) (timers s) of
        None \<Rightarrow> s
      | Some t \<Rightarrow> timerCallback (callback t) (s\<lparr>timers := clearTimeout tid (timers s)\<rparr>))"

definition handleUndo :: "app \<Rightarrow> app" where
  "handleUndo s =
     (case activeTab s of
        None \<Rightarrow> s
      | Some t \<Rightarrow>
          if undoStack t = [] then s
          else
            let newUndoStack = butlast (undoStack t);
                previousContent = last (undoStack t);
                newRedoStack = slice_last 50 (redoStack t @ [content t])
            in s\<lparr>tabs := (tabs s)[nat (activeTabIndex s) :=
                    t\<lparr>content := previousContent, undoStack := newUndoStack,
                      redoStack := newRedoStack, isModified := True\<rparr>]\<rparr>)"

definition handleRedo :: "app \<Rightarrow> app" where
  "handleRedo s =
     (case activeTab s of
        None \<Rightarrow> s
      | Some t \<Rightarrow>
          if redoStack t = [] then s
          else
            let newRedoStack = butlast (redoStack t);
                nextContent = last (redoStack t);
                newUndoStack = slice_last 50 (undoStack t @ [content t])
            in s\<lparr>tabs := (tabs s)[nat (activeTabIndex s) :=
                    t\<lparr>content := nextContent, undoStack := newUndoStack,
                      redoStack := newRedoStack, isModified := True\<rparr>]\<rparr>)"

text \<open>\<open>tabs.findIndex(p)\<close>: the first index whose element satisfies \<open>p\<close>, else \<open>-1\<close>.\<close>

fun findIndexFrom :: "('a \<Rightarrow> bool) \<Rightarrow> 'a list \<Rightarrow> int \<Rightarrow> int" where
  "findIndexFrom p [] k = -1"
| "findIndexFrom p (x # xs) k = (if p x then k else findIndexFrom p xs (k + 1))"

definition findIndex :: "('a \<Rightarrow> bool) \<Rightarrow> 'a list \<Rightarrow> int" where
  "findIndex p xs = findIndexFrom p xs 0"

text \<open>The tab object both open handlers append: unmodified, with empty stacks.\<close>

definition newTab :: "string \<Rightarrow> string \<Rightarrow> tab" where
  "newTab p c = \<lparr>path = p, content = c, isModified = False, isEditing = False,
                 undoStack = [], redoStack = []\<rparr>"

text \<open>
  \<open>handleOpenFile\<close> awaits the backend's \<open>open_file\<close> dialog before it looks at \<open>tabs\<close>,
  so the \<open>tabs\<close> it reads are those of the render in which it was called (\<open>ctabs\<close>), while
  its \<open>setTabs\<close> and \<open>setActiveTabIndex\<close> act on the state at the time of the reply. The
  reply is \<open>None\<close> for a cancelled dialog (falsy result) or a rejected call, else the
  pair of \<open>result.path\<close> and \<open>result.content\<close>.
\<close>

definition handleOpenFile :: "tab list \<Rightarrow> (string \<times> string) option \<Rightarrow> app \<Rightarrow> app" where
  "handleOpenFile ctabs result s =
     (case result of
        None \<Rightarrow> s
      | Some (rpath, rcontent) \<Rightarrow>
          let existingTabIndex = findIndex (\<lambda>t. path t = rpath) ctabs in
          if existingTabIndex \<ge> 0 then s\<lparr>activeTabIndex := existingTabIndex\<rparr>
          else s\<lparr>tabs := ctabs @ [newTab rpath rcontent],
                 activeTabIndex := int (length ctabs)\<rparr>)"

text \<open>A file-tree item, \<open>{path, is_directory, ...}\<close>.\<close>

record item =
  item_path :: string
  is_directory :: bool

text \<open>
  \<open>handleFileClick\<close>: the lookup among the open tabs comes first; only when the path is
  not open does the handler call \<open>read_file_by_path\<close>, whose reply is \<open>readResult\<close>
  (\<open>None\<close>: the call was rejected, which the handler only logs).
\<close>

definition handleFileClick :: "tab list \<Rightarrow> item \<Rightarrow> string option \<Rightarrow> app \<Rightarrow> app" where
  "handleFileClick ctabs it readResult s =
     (if is_directory it then s
      else
        let existingTabIndex = findIndex (\<lambda>t. path t = item_path it) ctabs in
        if existingTabIndex \<ge> 0 then s\<lparr>activeTabIndex := existingTabIndex\<rparr>
        else (case readResult of
                None \<Rightarrow> s
              | Some c \<Rightarrow> s\<lparr>tabs := ctabs @ [newTab (item_path it) c],
                            activeTabIndex := int (length ctabs)\<rparr>))"

text \<open>
  \<open>handleSaveFile\<close>: \<open>c\<close> is the state of the render in which it was called, \<open>ok\<close> whether
  \<open>save_file\<close> resolved.
\<close>

definition handleSaveFile :: "app \<Rightarrow> bool \<Rightarrow> app \<Rightarrow> app" where
  "handleSaveFile c ok s =
     (case activeTab c of
        None \<Rightarrow> s
      | Some t \<Rightarrow>
          if ok then s\<lparr>tabs := (tabs c)[nat (activeTabIndex c) := t\<lparr>isModified := False\<rparr>]\<rparr>
          else s)"

text \<open>\<open>tabs.filter((_, i) => i !== index)\<close>\<close>

definition removeAt :: "int \<Rightarrow> 'a list \<Rightarrow> 'a list" where
  "removeAt i xs = map fst (filter (\<lambda>p. int (snd p) \<noteq> i) (zip xs [0..<length xs]))"

definition handleCloseTab :: "int \<Rightarrow> app \<Rightarrow> app" where
  "handleCloseTab i s =
     (let newTabs = removeAt i (tabs s) in
      s\<lparr>tabs := newTabs,
        activeTabIndex :=
          (if i = activeTabIndex s then
             (if length newTabs = 0 then -1
              else if i \<ge> int (length newTabs) then int (length newTabs) - 1
              else i)
           else if i < activeTabIndex s then activeTabIndex s - 1
           else activeTabIndex s)\<rparr>)"

definition handleToggleEdit :: "app \<Rightarrow> app" where
  "handleToggleEdit s =
     (case activeTab s of
        None \<Rightarrow> s
      | Some t \<Rightarrow> s\<lparr>tabs := (tabs s)[nat (activeTabIndex s) := t\<lparr>isEditing := \<not> isEditing t\<rparr>]\<rparr>)"

subsection \<open>Search and replace\<close>

text \<open>
  \<open>String.prototype.toLowerCase\<close> is the language's own and is a parameter wherever the
  code calls it: the model fixes neither which characters it folds nor that it keeps the
  length of a string.
\<close>

type_synonym lowercase = "string \<Rightarrow> string"

text \<open>
  \<open>text.indexOf(q, pos)\<close>: the scan of the language's built-in starts at
  \<open>min(pos, text.length)\<close> and returns the first position at which \<open>q\<close> occurs, \<open>-1\<close>
  (here \<open>None\<close>) when there is none.
\<close>

function indexOfLoop :: "string \<Rightarrow> string \<Rightarrow> nat \<Rightarrow> nat option" where
  "indexOfLoop text q k =
     (if k + length q > length text then None
      else if take (length q) (drop k text) = q then Some k
      else indexOfLoop text q (k + 1))"
  by pat_completeness auto
termination
  by (relation "measure (\<lambda>(text, q, k). Suc (length text) - k)") auto

declare indexOfLoop.simps [simp del]

definition indexOf :: "string \<Rightarrow> string \<Rightarrow> nat \<Rightarrow> nat option" where
  "indexOf text q pos = indexOfLoop text q (min pos (length text))"

text \<open>
  The literal branch's loop
  \<^verbatim>\<open>while (index !== -1) { matches.push({ index, length: searchQuery.length });
                          index = searchText.indexOf(query, index + 1) }\<close>
  with \<open>n\<close> the length of the query as typed. Nothing in the loop itself bounds it, so it
  is a partial function: \<open>None\<close> means that it never leaves the loop.
\<close>

partial_function (option) literalLoop ::
  "string \<Rightarrow> string \<Rightarrow> nat \<Rightarrow> nat option \<Rightarrow> match list \<Rightarrow> match list option" where
  "literalLoop searchText query n idx matches =
     (case idx of
        None \<Rightarrow> Some matches
      | Some i \<Rightarrow> literalLoop searchText query n (indexOf searchText query (i + 1))
                    (matches @ [\<lparr>index = i, length_m = n\<rparr>]))"

declare literalLoop.simps [code]

definition literalSearch :: "lowercase \<Rightarrow> bool \<Rightarrow> string \<Rightarrow> string \<Rightarrow> match list option" where
  "literalSearch toLowerCase caseSensitive sq text =
     (let searchText = (if caseSensitive then text else toLowerCase text);
          query = (if caseSensitive then sq else toLowerCase sq)
      in literalLoop searchText query (length sq) (indexOf searchText query 0) [])"

text \<open>
  The pattern engine is the language's own and is a parameter here. A compiled pattern
  with the global flag is used through \<open>regex.exec(text)\<close>, which searches from the
  pattern's \<open>lastIndex\<close> and returns \<open>null\<close> or a match, of which the code reads
  \<open>match.index\<close> and \<open>match[0].length\<close>; after a match \<open>lastIndex\<close> is the match's end.
  \<open>new RegExp(query, flags)\<close> throws on an invalid pattern (\<open>None\<close>).
\<close>

type_synonym regexp = "string \<Rightarrow> nat \<Rightarrow> (nat \<times> nat) option"

type_synonym regex_engine = "string \<Rightarrow> string \<Rightarrow> regexp option"

definition regexFlags :: "bool \<Rightarrow> string" where
  "regexFlags caseSensitive = (if caseSensitive then ''g'' else ''gi'')"

text \<open>\<^verbatim>\<open>while ((match = regex.exec(editorText)) !== null) { matches.push(...) }\<close>\<close>

partial_function (option) regexLoop ::
  "regexp \<Rightarrow> string \<Rightarrow> nat \<Rightarrow> match list \<Rightarrow> match list option" where
  "regexLoop re text lastIndex matches =
     (case re text lastIndex of
        None \<Rightarrow> Some matches
      | Some (i, l) \<Rightarrow> regexLoop re text (i + l) (matches @ [\<lparr>index = i, length_m = l\<rparr>]))"

declare regexLoop.simps [code]

datatype js_error = SyntaxError

definition regexSearch :: "regex_engine \<Rightarrow> bool \<Rightarrow> string \<Rightarrow> string \<Rightarrow> (js_error + match list) option" where
  "regexSearch engine caseSensitive sq text =
     (case engine sq (regexFlags caseSensitive) of
        None \<Rightarrow> Some (Inl SyntaxError)
      | Some re \<Rightarrow> map_option Inr (regexLoop re text 0 []))"

text \<open>
  The effect that recomputes the matches. Its result is \<open>None\<close> when one of the two loops
  never ends; a thrown error is caught and empties the matches.
\<close>

definition searchEffect :: "lowercase \<Rightarrow> regex_engine \<Rightarrow> app \<Rightarrow> app option" where
  "searchEffect toLowerCase engine s =
     (if searchQuery s = [] \<or> editorText s = [] \<or> \<not> showSearch s
      then Some (s\<lparr>searchMatches := [], currentMatchIndex := -1\<rparr>)
      else
        (case (if searchRegex s
               then regexSearch engine (searchCaseSensitive s) (searchQuery s) (editorText s)
               else map_option Inr
                      (literalSearch toLowerCase (searchCaseSensitive s) (searchQuery s) (editorText s))) of
           None \<Rightarrow> None
         | Some (Inl e) \<Rightarrow> Some (s\<lparr>searchMatches := [], currentMatchIndex := -1\<rparr>)
         | Some (Inr matches) \<Rightarrow>
             Some (s\<lparr>searchMatches := matches,
                     currentMatchIndex := (if length matches > 0 then 0 else -1)\<rparr>)))"

text \<open>
  \<open>text.substring(0, match.index) + replaceText + text.substring(match.index + match.length)\<close>;
  \<open>substring\<close> clamps its arguments to the string, as \<open>take\<close> and \<open>drop\<close> do.
\<close>

definition spliceMatch :: "string \<Rightarrow> match \<Rightarrow> string \<Rightarrow> string" where
  "spliceMatch r m text = take (index m) text @ r @ drop (index m + length_m m) text"

definition handleReplace :: "app \<Rightarrow> app" where
  "handleReplace s =
     (if activeTab s = None \<or> currentMatchIndex s < 0
         \<or> currentMatchIndex s \<ge> int (length (searchMatches s)) then s
      else
        let m = searchMatches s ! nat (currentMatchIndex s);
            newContent = spliceMatch (replaceText s) m (editorText s);
            s' = handleTabContentChange newContent s
        in if currentMatchIndex s < int (length (searchMatches s)) - 1
           then s'\<lparr>currentMatchIndex := currentMatchIndex s\<rparr>
           else s'\<lparr>currentMatchIndex := -1\<rparr>)"

text \<open>
  The loop of \<open>handleReplaceAll\<close>,
  \<^verbatim>\<open>for (let i = searchMatches.length - 1; i >= 0; i--) { newContent = ... }\<close>:
  the counter \<open>k\<close> is \<open>i + 1\<close>.
\<close>

fun replaceAllLoop :: "match list \<Rightarrow> string \<Rightarrow> nat \<Rightarrow> string \<Rightarrow> string" where
  "replaceAllLoop ms r 0 newContent = newContent"
| "replaceAllLoop ms r (Suc i) newContent = replaceAllLoop ms r i (spliceMatch r (ms ! i) newContent)"

text \<open>
  The same loop, recording at each iteration the counter \<open>i\<close> and the buffer
  \<open>newContent\<close> as it is just before the splice of \<open>searchMatches[i]\<close>.
\<close>

fun replaceAllTrace :: "match list \<Rightarrow> string \<Rightarrow> nat \<Rightarrow> string \<Rightarrow> (nat \<times> string) list" where
  "replaceAllTrace ms r 0 newContent = []"
| "replaceAllTrace ms r (Suc i) newContent =
     (i, newContent) # replaceAllTrace ms r i (spliceMatch r (ms ! i) newContent)"

definition handleReplaceAll :: "app \<Rightarrow> app" where
  "handleReplaceAll s =
     (if activeTab s = None \<or> length (searchMatches s) = 0 then s
      else
        let newContent = replaceAllLoop (searchMatches s) (replaceText s)
                           (length (searchMatches s)) (editorText s)
        in (handleTabContentChange newContent s)\<lparr>currentMatchIndex := -1\<rparr>)"

subsection \<open>Events of the workspace\<close>

text \<open>
  One event is one run of a handler or of a pending timeout. The three asynchronous
  handlers are run here with no other event between their call and the backend's reply.
\<close>

datatype event =
    Edit string
  | TimerFires nat
  | Undo
  | Redo
  | CloseTab int
  | SelectTab int
  | OpenFile "(string \<times> string) option"
  | FileClick item "string option"
  | SaveFile bool
  | ToggleEdit
  | Replace
  | ReplaceAll

fun step :: "app \<Rightarrow> event \<Rightarrow> app" where
  "step s (Edit c) = handleTabContentChange c s"
| "step s (TimerFires tid) = fireTimer tid s"
| "step s Undo = handleUndo s"
| "step s Redo = handleRedo s"
| "step s (CloseTab i) = handleCloseTab i s"
| "step s (SelectTab i) = s\<lparr>activeTabIndex := i\<rparr>"
| "step s (OpenFile result) = handleOpenFile (tabs s) result s"
| "step s (FileClick it readResult) = handleFileClick (tabs s) it readResult s"
| "step s (SaveFile ok) = handleSaveFile s ok s"
| "step s ToggleEdit = handleToggleEdit s"
| "step s Replace = handleReplace s"
| "step s ReplaceAll = handleReplaceAll s"

definition run :: "app \<Rightarrow> event list \<Rightarrow> app" where
  "run = foldl step"

text \<open>
  The state of the first render. The debounce timeouts are numbered from 1; the other
  timers of the page (the git status interval) are left out, they never meet the ref.
\<close>

definition initial :: app where
  "initial = \<lparr>tabs = [], activeTabIndex = -1, undoDebounceTimer = None, timers = [],
              nextTimerId = 1, showSearch = False, searchQuery = [], replaceText = [],
              searchCaseSensitive = False, searchRegex = False, searchMatches = [],
              currentMatchIndex = -1\<rparr>"

section \<open>The terminal (Terminal and TerminalPanel components)\<close>

text \<open>
  One mounted \<open>Terminal\<close>: the ref \<open>backendIdRef\<close> (\<open>null\<close> until \<open>spawn_terminal\<close>
  resolves), the \<open>write_terminal\<close> calls made so far as pairs of id and data, and the
  number of warnings logged for input that arrived without an id.
\<close>

record terminal =
  backendIdRef :: "string option"
  writes :: "(string \<times> string) list"
  warnings :: nat

datatype terminal_event = SpawnResolved string | SpawnRejected | OnData string

text \<open>
  \<open>if (backendIdRef.current)\<close> is a truthiness test: \<open>null\<close> and the empty string fail it.
\<close>

fun terminalStep :: "terminal \<Rightarrow> terminal_event \<Rightarrow> terminal" where
  "terminalStep t (SpawnResolved i) = t\<lparr>backendIdRef := Some i\<rparr>"
| "terminalStep t SpawnRejected = t"
| "terminalStep t (OnData d) =
     (case backendIdRef t of
        None \<Rightarrow> t\<lparr>warnings := warnings t + 1\<rparr>
      | Some i \<Rightarrow> if i \<noteq> [] then t\<lparr>writes := writes t @ [(i, d)]\<rparr>
                  else t\<lparr>warnings := warnings t + 1\<rparr>)"

definition mounted :: terminal where
  "mounted = \<lparr>backendIdRef = None, writes = [], warnings = 0\<rparr>"

definition terminalRun :: "terminal \<Rightarrow> terminal_event list \<Rightarrow> terminal" where
  "terminalRun = foldl terminalStep"

text \<open>The panel's tab objects \<open>{id, shellType, title}\<close> and its state.\<close>

record terminal_tab =
  id_t :: string
  shellType :: string
  title :: string

record panel =
  terminals :: "terminal_tab list"
  activeTerminal :: "string option"

text \<open>
  \<open>closeTerminal\<close> reads \<open>terminals\<close> and \<open>activeTerminal\<close> from the render in which it
  was created (\<open>c\<close>), and its two setters act on the state at the time of the call
  (\<open>p\<close>); \<open>setActiveTerminal\<close> is called only when the closed id is the active one of
  \<open>c\<close>. The close button of a tab calls the function of the current render, so there
  \<open>c\<close> is \<open>p\<close>. A \<open>Terminal\<close> registers its \<open>closed\<close> listener in an effect that runs
  when it mounts and not again, so a backend exit calls the function of the render in
  which that \<open>Terminal\<close> was mounted.
\<close>

definition closeTerminal :: "panel \<Rightarrow> string \<Rightarrow> panel \<Rightarrow> panel" where
  "closeTerminal c i p =
     (let remaining = filter (\<lambda>t. id_t t \<noteq> i) (terminals c) in
      p\<lparr>terminals := remaining,
        activeTerminal :=
          (if activeTerminal c = Some i
           then (case remaining of [] \<Rightarrow> None | t # _ \<Rightarrow> Some (id_t t))
           else activeTerminal p)\<rparr>)"

section \<open>Specification-side notions\<close>

text \<open>
  The timeout table and the ref agree: ids are positive and below the next id, and the
  only timeout that can be pending is the one whose id the ref holds.
\<close>

definition timer_inv :: "app \<Rightarrow> bool" where
  "timer_inv s =
     (0 < nextTimerId s \<and>
      (case undoDebounceTimer s of
         None \<Rightarrow> timers s = []
       | Some tid \<Rightarrow> 0 < tid \<and> tid < nextTimerId s
                     \<and> (timers s = [] \<or> (map handle (timers s) = [tid] \<and> map delay (timers s) = [300]))))"

text \<open>
  A compiled pattern on a text whose every match starts at or after the position the
  search started from, is not empty and ends inside the text.
\<close>

definition advancing :: "regexp \<Rightarrow> string \<Rightarrow> bool" where
  "advancing re text = (\<forall>k i l. re text k = Some (i, l) \<longrightarrow> k \<le> i \<and> 0 < l \<and> i + l \<le> length text)"

text \<open>
  The successive matches of a compiled pattern from position \<open>k\<close> on, each search
  starting at the end of the previous match; at most \<open>n\<close> of them.
\<close>

fun successive :: "regexp \<Rightarrow> string \<Rightarrow> nat \<Rightarrow> nat \<Rightarrow> match list" where
  "successive re text k 0 = []"
| "successive re text k (Suc n) =
     (case re text k of
        None \<Rightarrow> []
      | Some (i, l) \<Rightarrow> \<lparr>index = i, length_m = l\<rparr> # successive re text (i + l) n)"

text \<open>
  Matches that lie in the buffer from position \<open>pos\<close> on, in ascending order, none
  reaching into the next.
\<close>

fun spans_ok :: "nat \<Rightarrow> string \<Rightarrow> match list \<Rightarrow> bool" where
  "spans_ok pos text [] = True"
| "spans_ok pos text (m # ms) =
     (pos \<le> index m \<and> index m + length_m m \<le> length text
      \<and> spans_ok (index m + length_m m) text ms)"

text \<open>
  Replacing each matched span of the original buffer by the replacement text, read from
  left to right: the text between the spans is kept as it is.
\<close>

fun replaceSpans :: "nat \<Rightarrow> string \<Rightarrow> match list \<Rightarrow> string \<Rightarrow> string" where
  "replaceSpans pos text [] r = drop pos text"
| "replaceSpans pos text (m # ms) r =
     take (index m - pos) (drop pos text) @ r @ replaceSpans (index m + length_m m) text ms r"

text \<open>The positions of a buffer at which a query occurs, overlapping or not.\<close>

abbreviation (input) occurs_at :: "string \<Rightarrow> string \<Rightarrow> nat \<Rightarrow> bool" where
  "occurs_at q text k \<equiv> k + length q \<le> length text \<and> take (length q) (drop k text) = q"

definition occurrences :: "string \<Rightarrow> string \<Rightarrow> nat list" where
  "occurrences q text = filter (occurs_at q text) [0..<length text]"

section \<open>Helper facts\<close>

lemma last_slice_last: "xs \<noteq> [] \<Longrightarrow> 0 < n \<Longrightarrow> last (slice_last n xs) = last xs"
  by (simp add: slice_last_def)

lemma slice_last_nonempty: "xs \<noteq> [] \<Longrightarrow> 0 < n \<Longrightarrow> slice_last n xs \<noteq> []"
  by (cases xs) (auto simp: slice_last_def)

lemma activeTab_SomeD:
  "activeTab s = Some t \<Longrightarrow>
     0 \<le> activeTabIndex s \<and> nat (activeTabIndex s) < length (tabs s) \<and> t = tabs s ! nat (activeTabIndex s)"
  by (auto simp: activeTab_def js_index_def split: if_splits)

lemma activeTab_update:
  "activeTab s = Some t \<Longrightarrow> activeTab (s\<lparr>tabs := (tabs s)[nat (activeTabIndex s) := t']\<rparr>) = Some t'"
  by (auto simp: activeTab_def js_index_def split: if_splits)

lemma undo_content:
  assumes "activeTab s = Some t" "undoStack t \<noteq> []"
  shows "activeTab (handleUndo s) =
           Some (t\<lparr>content := last (undoStack t), undoStack := butlast (undoStack t),
                   redoStack := slice_last 50 (redoStack t @ [content t]), isModified := True\<rparr>)"
  using assms by (simp add: handleUndo_def Let_def activeTab_update)

lemma findIndexFrom_found:
  "\<exists>x\<in>set xs. p x \<Longrightarrow>
     k \<le> findIndexFrom p xs k \<and> findIndexFrom p xs k < k + int (length xs)
     \<and> p (xs ! nat (findIndexFrom p xs k - k))"
proof (induction xs arbitrary: k)
  case Nil
  then show ?case by simp
next
  case (Cons x xs)
  show ?case
  proof (cases "p x")
    case True
    then show ?thesis by simp
  next
    case False
    with Cons.prems have "\<exists>y\<in>set xs. p y" by auto
    from Cons.IH [OF this, of "k + 1"]
    have ih: "k + 1 \<le> findIndexFrom p xs (k + 1)"
      "findIndexFrom p xs (k + 1) < k + 1 + int (length xs)"
      "p (xs ! nat (findIndexFrom p xs (k + 1) - (k + 1)))" by auto
    have "nat (findIndexFrom p xs (k + 1) - k) = Suc (nat (findIndexFrom p xs (k + 1) - (k + 1)))"
      using ih(1) by arith
    with ih False show ?thesis by simp
  qed
qed

lemma findIndex_found:
  assumes "\<exists>x\<in>set xs. p x"
  shows "0 \<le> findIndex p xs" and "nat (findIndex p xs) < length xs"
    and "p (xs ! nat (findIndex p xs))"
  using findIndexFrom_found [OF assms, of 0] by (auto simp: findIndex_def)

lemma run_OnData_unready:
  "backendIdRef t = None \<or> backendIdRef t = Some [] \<Longrightarrow>
   terminalRun t (map OnData ws) = t\<lparr>warnings := warnings t + length ws\<rparr>"
proof (induction ws arbitrary: t)
  case Nil
  then show ?case by (simp add: terminalRun_def)
next
  case (Cons w ws)
  have "terminalRun t (map OnData (w # ws)) = terminalRun (terminalStep t (OnData w)) (map OnData ws)"
    by (simp add: terminalRun_def)
  also have "terminalStep t (OnData w) = t\<lparr>warnings := warnings t + 1\<rparr>"
    using Cons.prems by auto
  also have "terminalRun (t\<lparr>warnings := warnings t + 1\<rparr>) (map OnData ws)
           = t\<lparr>warnings := warnings t + 1\<rparr>\<lparr>warnings := warnings (t\<lparr>warnings := warnings t + 1\<rparr>) + length ws\<rparr>"
    using Cons.prems by (intro Cons.IH) auto
  finally show ?case by simp
qed

lemma run_OnData_ready:
  "backendIdRef t = Some i \<Longrightarrow> i \<noteq> [] \<Longrightarrow>
   terminalRun t (map OnData vs) = t\<lparr>writes := writes t @ map (Pair i) vs\<rparr>"
proof (induction vs arbitrary: t)
  case Nil
  then show ?case by (simp add: terminalRun_def)
next
  case (Cons v vs)
  have "terminalRun t (map OnData (v # vs)) = terminalRun (terminalStep t (OnData v)) (map OnData vs)"
    by (simp add: terminalRun_def)
  also have "terminalStep t (OnData v) = t\<lparr>writes := writes t @ [(i, v)]\<rparr>"
    using Cons.prems by auto
  also have "terminalRun (t\<lparr>writes := writes t @ [(i, v)]\<rparr>) (map OnData vs)
           = t\<lparr>writes := writes t @ [(i, v)]\<rparr>\<lparr>writes := writes (t\<lparr>writes := writes t @ [(i, v)]\<rparr>) @ map (Pair i) vs\<rparr>"
    using Cons.prems by (intro Cons.IH) auto
  finally show ?case by simp
qed

lemma terminalRun_append: "terminalRun t (es @ fs) = terminalRun (terminalRun t es) fs"
  by (simp add: terminalRun_def)

lemma replaceAllLoop_foldr:
  "k \<le> length ms \<Longrightarrow> replaceAllLoop ms r k nc = foldr (spliceMatch r) (take k ms) nc"
proof (induction k arbitrary: nc)
  case 0
  then show ?case by simp
next
  case (Suc k)
  then show ?case by (simp add: take_Suc_conv_app_nth)
qed

lemma replaceAllTrace_foldr:
  "k \<le> length ms \<Longrightarrow>
   replaceAllTrace ms r k nc =
     map (\<lambda>j. (j, foldr (spliceMatch r) (drop (Suc j) (take k ms)) nc)) (rev [0..<k])"
proof (induction k arbitrary: nc)
  case 0
  then show ?case by simp
next
  case (Suc k)
  then have k: "k < length ms" by simp
  have "\<And>j. j < k \<Longrightarrow> drop (Suc j) (take (Suc k) ms) = drop (Suc j) (take k ms) @ [ms ! k]"
    using k by (simp add: take_Suc_conv_app_nth)
  with Suc.IH [of "spliceMatch r (ms ! k) nc"] k show ?case by simp
qed

lemma take_spliceMatch:
  "n \<le> index m \<Longrightarrow> n \<le> length text \<Longrightarrow> take n (spliceMatch r m text) = take n text"
  by (simp add: spliceMatch_def min_def)

lemma prefix_kept:
  "\<forall>m\<in>set ms. n \<le> index m \<Longrightarrow> n \<le> length text \<Longrightarrow>
   take n (foldr (spliceMatch r) ms text) = take n text"
proof (induction ms)
  case Nil
  then show ?case by simp
next
  case (Cons m ms)
  then have ih: "take n (foldr (spliceMatch r) ms text) = take n text" by simp
  have len: "n \<le> length (foldr (spliceMatch r) ms text)"
  proof -
    have "length (take n (foldr (spliceMatch r) ms text)) = n"
      using Cons.prems(2) by (simp add: ih)
    then show ?thesis by simp
  qed
  have "take n (spliceMatch r m (foldr (spliceMatch r) ms text)) = take n (foldr (spliceMatch r) ms text)"
    using Cons.prems(1) len by (intro take_spliceMatch) auto
  with ih show ?case by simp
qed

lemma spans_ok_lower: "spans_ok pos text ms \<Longrightarrow> m \<in> set ms \<Longrightarrow> pos \<le> index m \<and> index m + length_m m \<le> length text"
proof (induction ms arbitrary: pos)
  case Nil
  then show ?case by simp
next
  case (Cons a ms)
  then show ?case by fastforce
qed

lemma spans_ok_drop:
  "spans_ok pos text ms \<Longrightarrow> j < length ms \<Longrightarrow>
   spans_ok (index (ms ! j) + length_m (ms ! j)) text (drop (Suc j) ms)"
proof (induction ms arbitrary: pos j)
  case Nil
  then show ?case by simp
next
  case (Cons a ms)
  then show ?case by (cases j) auto
qed

lemma foldr_splice_spans:
  "spans_ok pos text ms \<Longrightarrow> pos \<le> length text \<Longrightarrow>
   foldr (spliceMatch r) ms text = take pos text @ replaceSpans pos text ms r"
proof (induction ms arbitrary: pos)
  case Nil
  then show ?case by simp
next
  case (Cons m ms)
  let ?e = "index m + length_m m"
  let ?X = "foldr (spliceMatch r) ms text"
  from Cons.prems have p: "pos \<le> index m" "?e \<le> length text" "spans_ok ?e text ms" by auto
  have X: "?X = take ?e text @ replaceSpans ?e text ms r"
    using p by (intro Cons.IH) auto
  have t: "take (index m) ?X = take (index m) text"
    using p by (subst X) (simp add: min_def)
  have d: "drop ?e ?X = replaceSpans ?e text ms r"
    using p by (subst X) simp
  have "take (index m) text = take pos text @ take (index m - pos) (drop pos text)"
    using p by (metis le_add_diff_inverse take_add)
  moreover have "spliceMatch r m ?X = take (index m) ?X @ r @ drop ?e ?X"
    by (simp add: spliceMatch_def)
  ultimately show ?case
    using t d by simp
qed

lemma sorted_index_drop:
  "sorted (map index ms) \<Longrightarrow> j < length ms \<Longrightarrow> \<forall>m\<in>set (drop (Suc j) ms). index (ms ! j) \<le> index m"
proof -
  assume s: "sorted (map index ms)" and j: "j < length ms"
  { fix m assume "m \<in> set (drop (Suc j) ms)"
    then obtain k where k: "k < length (drop (Suc j) ms)" "m = drop (Suc j) ms ! k"
      by (auto simp: in_set_conv_nth)
    then have "m = ms ! (Suc j + k)" "Suc j + k < length ms" using j by auto
    then have "index (ms ! j) \<le> index m"
      using s sorted_nth_mono [of "map index ms" j "Suc j + k"] j by simp }
  then show ?thesis by blast
qed

section \<open>Terminal sessions\<close>

text \<open>
  Claim C1 says that input written while the session is still spawning is buffered and
  flushed in order once the backend id has resolved. The data handler has no buffer:
  input that arrives before the id is answered with a warning and goes nowhere. Two
  keystrokes typed before the id resolves never reach \<open>write_terminal\<close>.
\<close>

theorem pre_ready_input_lost_counterexample:
  "writes (terminalRun mounted [OnData ''l'', OnData ''s'', SpawnResolved ''t1'']) = []
   \<and> warnings (terminalRun mounted [OnData ''l'', OnData ''s'', SpawnResolved ''t1'']) = 2"
  by (simp add: terminalRun_def mounted_def)

text \<open>
  Claim C1, as amended: input written before the backend id has resolved is discarded,
  each piece with one logged warning; input written after a (non-empty) id has resolved
  is forwarded to the backend under that id, in the order of submission.
\<close>

theorem pre_ready_input_is_dropped:
  "terminalRun mounted (map OnData ws @ SpawnResolved i # map OnData vs) =
     \<lparr>backendIdRef = Some i,
      writes = (if i \<noteq> [] then map (Pair i) vs else []),
      warnings = length ws + (if i \<noteq> [] then 0 else length vs)\<rparr>"
proof -
  have a: "terminalRun mounted (map OnData ws) = mounted\<lparr>warnings := length ws\<rparr>"
    using run_OnData_unready [of mounted ws] by (simp add: mounted_def)
  have b: "terminalRun mounted (map OnData ws @ SpawnResolved i # map OnData vs)
         = terminalRun (mounted\<lparr>warnings := length ws, backendIdRef := Some i\<rparr>) (map OnData vs)"
    by (simp add: terminalRun_append a) (simp add: terminalRun_def)
  show ?thesis
  proof (cases "i = []")
    case True
    then show ?thesis
      unfolding b
      using run_OnData_unready [of "mounted\<lparr>warnings := length ws, backendIdRef := Some i\<rparr>" vs]
      by (simp add: mounted_def)
  next
    case False
    then show ?thesis
      unfolding b
      using run_OnData_ready [of "mounted\<lparr>warnings := length ws, backendIdRef := Some i\<rparr>" i vs]
      by (simp add: mounted_def)
  qed
qed

theorem pre_ready_input_is_dropped_witness:
  "terminalRun mounted (map OnData [''l'', ''s''] @ SpawnResolved ''t1'' # map OnData [''p'', ''w'']) =
     \<lparr>backendIdRef = Some ''t1'', writes = [(''t1'', ''p''), (''t1'', ''w'')], warnings = 2\<rparr>"
  using pre_ready_input_is_dropped [of "[''l'', ''s'']" "''t1''" "[''p'', ''w'']"] by simp

lemma filter_other_ids:
  "distinct (map id_t ts) \<Longrightarrow> k < length ts \<Longrightarrow>
   filter (\<lambda>t. id_t t \<noteq> id_t (ts ! k)) ts = take k ts @ drop (Suc k) ts"
proof (induction ts arbitrary: k)
  case Nil
  then show ?case by simp
next
  case (Cons a ts)
  show ?case
  proof (cases k)
    case 0
    have "id_t a \<notin> id_t ` set ts" using Cons.prems(1) by simp
    then have "\<forall>t\<in>set ts. id_t t \<noteq> id_t a" by (metis imageI)
    then have "filter (\<lambda>t. id_t t \<noteq> id_t a) ts = ts" by (simp add: filter_id_conv)
    with 0 show ?thesis by simp
  next
    case (Suc j)
    with Cons.prems have j: "j < length ts" and d: "distinct (map id_t ts)" by auto
    have "id_t a \<noteq> id_t (ts ! j)" using Cons.prems(1) j by auto
    with Cons.IH [OF d j] Suc show ?thesis by simp
  qed
qed

lemma first_of_others:
  "k < length ts \<Longrightarrow>
   (case take k ts @ drop (Suc k) ts of [] \<Rightarrow> None | t # _ \<Rightarrow> Some (id_t t)) =
     (if 0 < k then Some (id_t (ts ! 0))
      else if 1 < length ts then Some (id_t (ts ! 1)) else None)"
proof (cases ts)
  case Nil
  assume "k < length ts" with Nil show ?thesis by simp
next
  case (Cons a us)
  assume "k < length ts"
  show ?thesis
  proof (cases k)
    case 0
    with Cons show ?thesis by (cases us) simp_all
  next
    case (Suc j)
    with Cons show ?thesis by simp
  qed
qed

text \<open>
  Claim C6 says that closing the active terminal promotes the next session in tab order,
  else the previous one. \<open>closeTerminal\<close> takes the first of the remaining sessions:
  with tabs a, b, c and b active, a click on the close button of b activates a, not c.
\<close>

theorem close_middle_terminal_counterexample:
  "activeTerminal (closeTerminal
      \<lparr>terminals = [\<lparr>id_t = ''a'', shellType = ''sh'', title = ''sh - 1''\<rparr>,
                    \<lparr>id_t = ''b'', shellType = ''sh'', title = ''sh - 2''\<rparr>,
                    \<lparr>id_t = ''c'', shellType = ''sh'', title = ''sh - 3''\<rparr>],
       activeTerminal = Some ''b''\<rparr>
      ''b''
      \<lparr>terminals = [\<lparr>id_t = ''a'', shellType = ''sh'', title = ''sh - 1''\<rparr>,
                    \<lparr>id_t = ''b'', shellType = ''sh'', title = ''sh - 2''\<rparr>,
                    \<lparr>id_t = ''c'', shellType = ''sh'', title = ''sh - 3''\<rparr>],
       activeTerminal = Some ''b''\<rparr>) = Some ''a''"
  by (simp add: closeTerminal_def)

text \<open>
  Claim C6, as amended: when close is invoked from the current render (the close button
  of a tab) on the active session, the first session in tab order among those that remain
  becomes active, which is the next session only when the closed one was the first tab;
  none is active when no session remains; closing a session that is not active removes
  that session alone and leaves the active id unchanged. The theorem is stated for the
  render \<open>c\<close> whose \<open>terminals\<close> and \<open>activeTerminal\<close> the function reads, with distinct
  ids and the closed session at position \<open>k\<close> of its list; the amended claim is the
  case in which \<open>c\<close> is the current state \<open>p\<close>.
\<close>

theorem close_terminal_promotes_first_of_render:
  assumes "distinct (map id_t (terminals c))" and "k < length (terminals c)"
      and "id_t (terminals c ! k) = i"
  shows "terminals (closeTerminal c i p) = take k (terminals c) @ drop (Suc k) (terminals c)
       \<and> (activeTerminal c = Some i \<longrightarrow>
            activeTerminal (closeTerminal c i p) =
              (if 0 < k then Some (id_t (terminals c ! 0))
               else if 1 < length (terminals c) then Some (id_t (terminals c ! 1))
               else None))
       \<and> (activeTerminal c \<noteq> Some i \<longrightarrow>
            activeTerminal (closeTerminal c i p) = activeTerminal p)"
proof -
  have r: "filter (\<lambda>t. id_t t \<noteq> i) (terminals c) = take k (terminals c) @ drop (Suc k) (terminals c)"
    using filter_other_ids [OF assms(1,2)] assms(3) by simp
  show ?thesis
    using first_of_others [OF assms(2)]
    by (simp add: closeTerminal_def Let_def r)
qed

theorem close_terminal_promotes_first_of_render_witness:
  "closeTerminal
      \<lparr>terminals = [\<lparr>id_t = ''a'', shellType = ''sh'', title = ''sh - 1''\<rparr>,
                    \<lparr>id_t = ''b'', shellType = ''sh'', title = ''sh - 2''\<rparr>,
                    \<lparr>id_t = ''c'', shellType = ''sh'', title = ''sh - 3''\<rparr>],
       activeTerminal = Some ''c''\<rparr>
      ''c''
      \<lparr>terminals = [\<lparr>id_t = ''a'', shellType = ''sh'', title = ''sh - 1''\<rparr>,
                    \<lparr>id_t = ''b'', shellType = ''sh'', title = ''sh - 2''\<rparr>,
                    \<lparr>id_t = ''c'', shellType = ''sh'', title = ''sh - 3''\<rparr>],
       activeTerminal = Some ''c''\<rparr>
     = \<lparr>terminals = [\<lparr>id_t = ''a'', shellType = ''sh'', title = ''sh - 1''\<rparr>,
                     \<lparr>id_t = ''b'', shellType = ''sh'', title = ''sh - 2''\<rparr>],
        activeTerminal = Some ''a''\<rparr>
   \<and> closeTerminal
      \<lparr>terminals = [\<lparr>id_t = ''a'', shellType = ''sh'', title = ''sh - 1''\<rparr>],
       activeTerminal = Some ''a''\<rparr>
      ''a''
      \<lparr>terminals = [\<lparr>id_t = ''a'', shellType = ''sh'', title = ''sh - 1''\<rparr>,
                    \<lparr>id_t = ''b'', shellType = ''sh'', title = ''sh - 2''\<rparr>,
                    \<lparr>id_t = ''c'', shellType = ''sh'', title = ''sh - 3''\<rparr>],
       activeTerminal = Some ''c''\<rparr>
     = \<lparr>terminals = [], activeTerminal = None\<rparr>"
  using close_terminal_promotes_first_of_render
      [of "\<lparr>terminals = [\<lparr>id_t = ''a'', shellType = ''sh'', title = ''sh - 1''\<rparr>,
                    \<lparr>id_t = ''b'', shellType = ''sh'', title = ''sh - 2''\<rparr>,
                    \<lparr>id_t = ''c'', shellType = ''sh'', title = ''sh - 3''\<rparr>],
            activeTerminal = Some ''c''\<rparr>" 2 "''c''"
          "\<lparr>terminals = [\<lparr>id_t = ''a'', shellType = ''sh'', title = ''sh - 1''\<rparr>,
                    \<lparr>id_t = ''b'', shellType = ''sh'', title = ''sh - 2''\<rparr>,
                    \<lparr>id_t = ''c'', shellType = ''sh'', title = ''sh - 3''\<rparr>],
            activeTerminal = Some ''c''\<rparr>"]
    close_terminal_promotes_first_of_render
      [of "\<lparr>terminals = [\<lparr>id_t = ''a'', shellType = ''sh'', title = ''sh - 1''\<rparr>],
            activeTerminal = Some ''a''\<rparr>" 0 "''a''"
          "\<lparr>terminals = [\<lparr>id_t = ''a'', shellType = ''sh'', title = ''sh - 1''\<rparr>,
                    \<lparr>id_t = ''b'', shellType = ''sh'', title = ''sh - 2''\<rparr>,
                    \<lparr>id_t = ''c'', shellType = ''sh'', title = ''sh - 3''\<rparr>],
            activeTerminal = Some ''c''\<rparr>"]
  by (simp add: closeTerminal_def)

section \<open>Document sessions\<close>

text \<open>
  Claim C4: on a session that is the active tab and has a non-empty undo stack, undo sets
  the content to the top of the undo stack, and a redo right after it sets the content
  back to what it was before the undo.
\<close>

theorem undo_then_redo:
  assumes "activeTab s = Some t" and "undoStack t \<noteq> []"
  shows "map_option content (activeTab (handleUndo s)) = Some (last (undoStack t))
       \<and> map_option content (activeTab (handleRedo (handleUndo s))) = Some (content t)"
proof -
  let ?u = "t\<lparr>content := last (undoStack t), undoStack := butlast (undoStack t),
               redoStack := slice_last 50 (redoStack t @ [content t]), isModified := True\<rparr>"
  have u: "activeTab (handleUndo s) = Some ?u"
    using assms by (rule undo_content)
  have idx: "activeTabIndex (handleUndo s) = activeTabIndex s"
    using assms by (simp add: handleUndo_def Let_def)
  have ne: "redoStack ?u \<noteq> []"
    by (simp add: slice_last_nonempty)
  have l: "last (redoStack ?u) = content t"
    by (simp add: last_slice_last)
  have "map_option content (activeTab (handleRedo (handleUndo s))) = Some (last (redoStack ?u))"
    using u ne by (simp add: handleRedo_def Let_def activeTab_update del: tab.simps)
  with u l show ?thesis by simp
qed

theorem undo_then_redo_witness:
  "activeTab (initial\<lparr>tabs := [(newTab ''a.txt'' ''xy'')\<lparr>undoStack := [''x'']\<rparr>], activeTabIndex := 0\<rparr>)
     = Some ((newTab ''a.txt'' ''xy'')\<lparr>undoStack := [''x'']\<rparr>)
   \<and> undoStack ((newTab ''a.txt'' ''xy'')\<lparr>undoStack := [''x'']\<rparr>) \<noteq> []
   \<and> map_option content (activeTab (handleUndo
        (initial\<lparr>tabs := [(newTab ''a.txt'' ''xy'')\<lparr>undoStack := [''x'']\<rparr>], activeTabIndex := 0\<rparr>))) = Some ''x''
   \<and> map_option content (activeTab (handleRedo (handleUndo
        (initial\<lparr>tabs := [(newTab ''a.txt'' ''xy'')\<lparr>undoStack := [''x'']\<rparr>], activeTabIndex := 0\<rparr>)))) = Some ''xy''"
  using undo_then_redo [of "initial\<lparr>tabs := [(newTab ''a.txt'' ''xy'')\<lparr>undoStack := [''x'']\<rparr>], activeTabIndex := 0\<rparr>"
                           "(newTab ''a.txt'' ''xy'')\<lparr>undoStack := [''x'']\<rparr>"]
  by (simp add: activeTab_def js_index_def initial_def newTab_def)

text \<open>
  Claim C10: opening a path that is already open in a tab, through the dialog or through
  a click in the file tree, changes nothing but the active tab index, which becomes the
  index of the first tab with that path. The tabs stay as they are whatever content the
  dialog returned from disk (\<open>diskContent\<close>), and the file-tree handler does not look at
  the reply of a read (\<open>readResult\<close>).
\<close>

theorem open_existing_path_only_activates:
  assumes "t \<in> set ctabs" and "path t = p" and "item_path it = p" and "\<not> is_directory it"
  shows "handleOpenFile ctabs (Some (p, diskContent)) s = s\<lparr>activeTabIndex := findIndex (\<lambda>t. path t = p) ctabs\<rparr>
       \<and> handleFileClick ctabs it readResult s = s\<lparr>activeTabIndex := findIndex (\<lambda>t. path t = p) ctabs\<rparr>
       \<and> 0 \<le> findIndex (\<lambda>t. path t = p) ctabs
       \<and> nat (findIndex (\<lambda>t. path t = p) ctabs) < length ctabs
       \<and> path (ctabs ! nat (findIndex (\<lambda>t. path t = p) ctabs)) = p"
proof -
  have ex: "\<exists>x\<in>set ctabs. path x = p" using assms(1,2) by blast
  note f = findIndex_found [where p = "\<lambda>t. path t = p", OF ex]
  show ?thesis using f assms(3,4)
    by (simp add: handleOpenFile_def handleFileClick_def Let_def)
qed

theorem open_existing_path_only_activates_witness:
  "newTab ''b.txt'' ''old'' \<in> set [newTab ''a.txt'' ''x'', newTab ''b.txt'' ''old'']
   \<and> handleOpenFile [newTab ''a.txt'' ''x'', newTab ''b.txt'' ''old''] (Some (''b.txt'', ''new''))
        (initial\<lparr>tabs := [newTab ''a.txt'' ''x'', newTab ''b.txt'' ''old''], activeTabIndex := 0\<rparr>)
      = initial\<lparr>tabs := [newTab ''a.txt'' ''x'', newTab ''b.txt'' ''old''], activeTabIndex := 1\<rparr>
   \<and> handleFileClick [newTab ''a.txt'' ''x'', newTab ''b.txt'' ''old'']
        \<lparr>item_path = ''b.txt'', is_directory = False\<rparr> (Some ''new'')
        (initial\<lparr>tabs := [newTab ''a.txt'' ''x'', newTab ''b.txt'' ''old''], activeTabIndex := 0\<rparr>)
      = initial\<lparr>tabs := [newTab ''a.txt'' ''x'', newTab ''b.txt'' ''old''], activeTabIndex := 1\<rparr>"
  using open_existing_path_only_activates [of "newTab ''b.txt'' ''old''"
      "[newTab ''a.txt'' ''x'', newTab ''b.txt'' ''old'']" "''b.txt''"
      "\<lparr>item_path = ''b.txt'', is_directory = False\<rparr>" "''new''"
      "initial\<lparr>tabs := [newTab ''a.txt'' ''x'', newTab ''b.txt'' ''old''], activeTabIndex := 0\<rparr>"
      "Some ''new''"]
  by (simp add: newTab_def findIndex_def)

lemma replaceAllLoop_resume:
  "k \<le> length ms \<Longrightarrow> (i, b) \<in> set (replaceAllTrace ms r k nc) \<Longrightarrow>
   replaceAllLoop ms r k nc = replaceAllLoop ms r (Suc i) b"
proof (induction k arbitrary: nc)
  case 0
  then show ?case by simp
next
  case (Suc k)
  then show ?case by auto
qed

lemma replaceAllTrace_entry:
  assumes "(i, b) \<in> set (replaceAllTrace ms r (length ms) text)"
  shows "i < length ms \<and> b = foldr (spliceMatch r) (drop (Suc i) ms) text"
  using assms by (auto simp: replaceAllTrace_foldr)

lemma replaceAllTrace_order:
  "map (\<lambda>p. ms ! fst p) (replaceAllTrace ms r (length ms) text) = rev ms"
proof -
  have "map (\<lambda>p. ms ! fst p) (replaceAllTrace ms r (length ms) text) = map ((!) ms) (rev [0..<length ms])"
    by (simp add: replaceAllTrace_foldr o_def)
  also have "\<dots> = rev (map ((!) ms) [0..<length ms])" by (simp add: rev_map)
  also have "\<dots> = rev ms" by (simp add: map_nth)
  finally show ?thesis .
qed

section \<open>Search and replace\<close>

text \<open>
  Claim C7: with an active tab and a non-empty MatchSet in ascending offset order,
  \<open>handleReplaceAll\<close> makes one call of \<open>handleTabContentChange\<close> and then sets
  \<open>currentMatchIndex\<close> to \<open>-1\<close>: afterwards the active tab holds the text computed by
  the loop and is marked modified, the other tabs are as before, the index is \<open>-1\<close> and
  one timeout has been scheduled. The loop splices the matches in the reverse of their order
  in the MatchSet, that is by descending offset. At the moment a match is spliced the
  buffer before its offset is still the original text, whatever the length of the
  replacement, and resuming the loop from that moment gives the final text. When the
  matches do not overlap, the whole span of each match is still the original text at that
  moment, and the buffer after the handler is the original with each matched span
  replaced by the replacement text.
\<close>

theorem replaceAll_descending_splices:
  assumes "activeTab s = Some t" and "content t = text" and "replaceText s = r"
      and "searchMatches s = ms" and "ms \<noteq> []"
      and "sorted (map index ms)" and "\<forall>m\<in>set ms. index m \<le> length text"
  shows "tabs (handleReplaceAll s) =
           (tabs s)[nat (activeTabIndex s) :=
              t\<lparr>content := replaceAllLoop ms r (length ms) text, isModified := True\<rparr>]
       \<and> editorText (handleReplaceAll s) = replaceAllLoop ms r (length ms) text
       \<and> currentMatchIndex (handleReplaceAll s) = -1
       \<and> nextTimerId (handleReplaceAll s) = nextTimerId s + 1
       \<and> handleReplaceAll s =
           (handleTabContentChange (replaceAllLoop ms r (length ms) text) s)\<lparr>currentMatchIndex := -1\<rparr>
       \<and> map (\<lambda>p. ms ! fst p) (replaceAllTrace ms r (length ms) text) = rev ms
       \<and> (\<forall>(i, b) \<in> set (replaceAllTrace ms r (length ms) text).
             take (index (ms ! i)) b = take (index (ms ! i)) text
           \<and> replaceAllLoop ms r (length ms) text = replaceAllLoop ms r (Suc i) b)
       \<and> (spans_ok 0 text ms \<longrightarrow>
             editorText (handleReplaceAll s) = replaceSpans 0 text ms r
           \<and> replaceAllLoop ms r (length ms) text = replaceSpans 0 text ms r
           \<and> (\<forall>(i, b) \<in> set (replaceAllTrace ms r (length ms) text).
                 take (index (ms ! i) + length_m (ms ! i)) b
                   = take (index (ms ! i) + length_m (ms ! i)) text))"
proof -
  let ?new = "replaceAllLoop ms r (length ms) text"
  have et: "editorText s = text" using assms(1,2) by (simp add: editorText_def)
  have h: "handleReplaceAll s = (handleTabContentChange ?new s)\<lparr>currentMatchIndex := -1\<rparr>"
    using assms(1,3,4,5) et by (simp add: handleReplaceAll_def Let_def)
  have tb: "tabs (handleReplaceAll s) =
              (tabs s)[nat (activeTabIndex s) := t\<lparr>content := ?new, isModified := True\<rparr>]"
    and ix: "activeTabIndex (handleReplaceAll s) = activeTabIndex s"
    and nx: "nextTimerId (handleReplaceAll s) = nextTimerId s + 1"
    and cm: "currentMatchIndex (handleReplaceAll s) = -1"
    unfolding h using assms(1) by (simp_all add: handleTabContentChange_def Let_def)
  have "activeTab (handleReplaceAll s) = Some (t\<lparr>content := ?new, isModified := True\<rparr>)"
    using activeTab_SomeD [OF assms(1)] by (auto simp: activeTab_def js_index_def tb ix)
  then have ed: "editorText (handleReplaceAll s) = ?new"
    by (simp add: editorText_def)
  have sp: "spans_ok 0 text ms \<Longrightarrow> ?new = replaceSpans 0 text ms r"
    using foldr_splice_spans [of 0 "text" ms r] by (simp add: replaceAllLoop_foldr)
  show ?thesis
  proof (intro conjI impI)
  show "tabs (handleReplaceAll s) =
           (tabs s)[nat (activeTabIndex s) := t\<lparr>content := ?new, isModified := True\<rparr>]"
    by (rule tb)
next
  show "editorText (handleReplaceAll s) = ?new" by (rule ed)
next
  show "currentMatchIndex (handleReplaceAll s) = -1" by (rule cm)
next
  show "nextTimerId (handleReplaceAll s) = nextTimerId s + 1" by (rule nx)
next
  show "handleReplaceAll s = (handleTabContentChange ?new s)\<lparr>currentMatchIndex := -1\<rparr>"
    by (rule h)
next
  show "map (\<lambda>p. ms ! fst p) (replaceAllTrace ms r (length ms) text) = rev ms"
    by (rule replaceAllTrace_order)
next
  show "\<forall>(i, b) \<in> set (replaceAllTrace ms r (length ms) text).
             take (index (ms ! i)) b = take (index (ms ! i)) text
           \<and> replaceAllLoop ms r (length ms) text = replaceAllLoop ms r (Suc i) b"
  proof (clarify, intro conjI)
    fix i b assume e: "(i, b) \<in> set (replaceAllTrace ms r (length ms) text)"
    from replaceAllTrace_entry [OF e]
    have i: "i < length ms" and b: "b = foldr (spliceMatch r) (drop (Suc i) ms) text" by auto
    have "\<forall>m\<in>set (drop (Suc i) ms). index (ms ! i) \<le> index m"
      using assms(6) i by (rule sorted_index_drop)
    moreover have "index (ms ! i) \<le> length text" using assms(7) i by simp
    ultimately show "take (index (ms ! i)) b = take (index (ms ! i)) text"
      unfolding b by (rule prefix_kept)
    show "replaceAllLoop ms r (length ms) text = replaceAllLoop ms r (Suc i) b"
      using e by (intro replaceAllLoop_resume) auto
  qed
next
  assume ok: "spans_ok 0 text ms"
  show "editorText (handleReplaceAll s) = replaceSpans 0 text ms r"
    using sp [OF ok] ed by simp
  show "replaceAllLoop ms r (length ms) text = replaceSpans 0 text ms r"
    using ok by (rule sp)
  show "\<forall>(i, b) \<in> set (replaceAllTrace ms r (length ms) text).
                 take (index (ms ! i) + length_m (ms ! i)) b
                   = take (index (ms ! i) + length_m (ms ! i)) text"
  proof clarify
    fix i b assume e: "(i, b) \<in> set (replaceAllTrace ms r (length ms) text)"
    from replaceAllTrace_entry [OF e]
    have i: "i < length ms" and b: "b = foldr (spliceMatch r) (drop (Suc i) ms) text" by auto
    let ?e = "index (ms ! i) + length_m (ms ! i)"
    have d: "spans_ok ?e text (drop (Suc i) ms)" using ok i by (rule spans_ok_drop)
    have le: "?e \<le> length text" using spans_ok_lower [OF ok, of "ms ! i"] i by simp
    have "\<forall>m\<in>set (drop (Suc i) ms). ?e \<le> index m"
      using spans_ok_lower [OF d] by blast
    then show "take ?e b = take ?e text"
      unfolding b using le by (rule prefix_kept)
  qed
qed
qed

theorem replaceAll_descending_splices_witness:
  "activeTab (initial\<lparr>tabs := [newTab ''a.txt'' ''a-b-c''], activeTabIndex := 0, replaceText := ''xyz'',
             searchMatches := [\<lparr>index = 1, length_m = 1\<rparr>, \<lparr>index = 3, length_m = 1\<rparr>]\<rparr>)
     = Some (newTab ''a.txt'' ''a-b-c'')
   \<and> spans_ok 0 ''a-b-c'' [\<lparr>index = 1, length_m = 1\<rparr>, \<lparr>index = 3, length_m = 1\<rparr>]
   \<and> handleReplaceAll (initial\<lparr>tabs := [newTab ''a.txt'' ''a-b-c''], activeTabIndex := 0, replaceText := ''xyz'',
             searchMatches := [\<lparr>index = 1, length_m = 1\<rparr>, \<lparr>index = 3, length_m = 1\<rparr>]\<rparr>)
     = (handleTabContentChange ''axyzbxyzc''
          (initial\<lparr>tabs := [newTab ''a.txt'' ''a-b-c''], activeTabIndex := 0, replaceText := ''xyz'',
             searchMatches := [\<lparr>index = 1, length_m = 1\<rparr>, \<lparr>index = 3, length_m = 1\<rparr>]\<rparr>))\<lparr>currentMatchIndex := -1\<rparr>
   \<and> editorText (handleReplaceAll (initial\<lparr>tabs := [newTab ''a.txt'' ''a-b-c''], activeTabIndex := 0,
             replaceText := ''xyz'',
             searchMatches := [\<lparr>index = 1, length_m = 1\<rparr>, \<lparr>index = 3, length_m = 1\<rparr>]\<rparr>)) = ''axyzbxyzc''
   \<and> currentMatchIndex (handleReplaceAll (initial\<lparr>tabs := [newTab ''a.txt'' ''a-b-c''], activeTabIndex := 0,
             replaceText := ''xyz'',
             searchMatches := [\<lparr>index = 1, length_m = 1\<rparr>, \<lparr>index = 3, length_m = 1\<rparr>]\<rparr>)) = -1
   \<and> replaceAllTrace [\<lparr>index = 1, length_m = 1\<rparr>, \<lparr>index = 3, length_m = 1\<rparr>] ''xyz'' 2 ''a-b-c''
     = [(1, ''a-b-c''), (0, ''a-bxyzc'')]
   \<and> replaceSpans 0 ''a-b-c'' [\<lparr>index = 1, length_m = 1\<rparr>, \<lparr>index = 3, length_m = 1\<rparr>] ''xyz'' = ''axyzbxyzc''"
  using replaceAll_descending_splices [of
      "initial\<lparr>tabs := [newTab ''a.txt'' ''a-b-c''], activeTabIndex := 0, replaceText := ''xyz'',
             searchMatches := [\<lparr>index = 1, length_m = 1\<rparr>, \<lparr>index = 3, length_m = 1\<rparr>]\<rparr>"
      "newTab ''a.txt'' ''a-b-c''" "''a-b-c''" "''xyz''"
      "[\<lparr>index = 1, length_m = 1\<rparr>, \<lparr>index = 3, length_m = 1\<rparr>]"]
  by (simp add: activeTab_def js_index_def initial_def newTab_def spliceMatch_def numeral_2_eq_2
        editorText_def handleTabContentChange_def Let_def)

lemma indexOfLoop_Some:
  "indexOfLoop buf q k = Some j \<Longrightarrow>
     k \<le> j \<and> occurs_at q buf j \<and> (\<forall>i. k \<le> i \<and> i < j \<longrightarrow> \<not> occurs_at q buf i)"
proof (induction buf q k rule: indexOfLoop.induct)
  case (1 buf q k)
  show ?case
  proof (cases "k + length q > length buf")
    case True
    with "1.prems" show ?thesis by (simp add: indexOfLoop.simps [of buf q k])
  next
    case False
    show ?thesis
    proof (cases "take (length q) (drop k buf) = q")
      case True
      with False "1.prems" show ?thesis by (auto simp: indexOfLoop.simps [of buf q k])
    next
      case neq: False
      with False "1.prems" have r: "indexOfLoop buf q (k + 1) = Some j"
        by (simp add: indexOfLoop.simps [of buf q k])
      from "1.IH" [OF _ neq r] False
      have ih: "k + 1 \<le> j" "occurs_at q buf j" "\<forall>i. k + 1 \<le> i \<and> i < j \<longrightarrow> \<not> occurs_at q buf i"
        by auto
      have "\<And>i. k \<le> i \<Longrightarrow> i < j \<Longrightarrow> \<not> occurs_at q buf i"
      proof -
        fix i assume "k \<le> i" "i < j"
        then consider "i = k" | "k + 1 \<le> i" by linarith
        then show "\<not> occurs_at q buf i"
          using neq ih(3) \<open>i < j\<close> by cases auto
      qed
      with ih show ?thesis by auto
    qed
  qed
qed

lemma indexOfLoop_None:
  "indexOfLoop buf q k = None \<Longrightarrow> k \<le> i \<Longrightarrow> \<not> occurs_at q buf i"
proof (induction buf q k rule: indexOfLoop.induct)
  case (1 buf q k)
  show ?case
  proof (cases "k + length q > length buf")
    case True
    with "1.prems" show ?thesis by simp
  next
    case False
    with "1.prems" have neq: "take (length q) (drop k buf) \<noteq> q"
      by (auto simp: indexOfLoop.simps [of buf q k] split: if_splits)
    with False "1.prems" have r: "indexOfLoop buf q (k + 1) = None"
      by (simp add: indexOfLoop.simps [of buf q k])
    show ?thesis
    proof (cases "i = k")
      case True
      with neq show ?thesis by simp
    next
      case False
      with "1.prems" have "k + 1 \<le> i" by simp
      from "1.IH" [OF _ neq r this] \<open>\<not> length buf < k + length q\<close> show ?thesis by simp
    qed
  qed
qed

lemma filter_upt_first:
  assumes "k \<le> j" "j < n" "P j" "\<forall>i. k \<le> i \<and> i < j \<longrightarrow> \<not> P i"
  shows "filter P [k..<n] = j # filter P [Suc j..<n]"
proof -
  have "[k..<n] = [k..<j] @ j # [Suc j..<n]"
    using assms(1,2) by (metis le_Suc_ex less_imp_le_nat upt_add_eq_append upt_conv_Cons)
  moreover have "filter P [k..<j] = []" using assms(4) by (auto simp: filter_empty_conv)
  ultimately show ?thesis using assms(3) by simp
qed

lemma literalLoop_occurrences:
  assumes q: "q \<noteq> []"
  shows "literalLoop text q n (indexOfLoop text q k) acc =
           Some (acc @ map (\<lambda>i. \<lparr>index = i, length_m = n\<rparr>) (filter (occurs_at q text) [k..<length text]))"
proof (induction "length text - k" arbitrary: k acc rule: less_induct)
  case less
  show ?case
  proof (cases "indexOfLoop text q k")
    case None
    then have "filter (occurs_at q text) [k..<length text] = []"
      using indexOfLoop_None [OF None] by (auto simp: filter_empty_conv)
    with None show ?thesis by (simp add: literalLoop.simps)
  next
    case (Some j)
    from indexOfLoop_Some [OF Some]
    have j: "k \<le> j" "occurs_at q text j" "\<forall>i. k \<le> i \<and> i < j \<longrightarrow> \<not> occurs_at q text i" by auto
    have jl: "j < length text" using j(2) q by (cases q) auto
    have nxt: "indexOf text q (Suc j) = indexOfLoop text q (Suc j)"
      using jl by (simp add: indexOf_def min_def)
    have ih: "literalLoop text q n (indexOfLoop text q (Suc j)) (acc @ [\<lparr>index = j, length_m = n\<rparr>]) =
           Some ((acc @ [\<lparr>index = j, length_m = n\<rparr>]) @ map (\<lambda>i. \<lparr>index = i, length_m = n\<rparr>)
              (filter (occurs_at q text) [Suc j..<length text]))"
      using j(1) jl by (intro less) simp
    have f: "filter (occurs_at q text) [k..<length text] = j # filter (occurs_at q text) [Suc j..<length text]"
      using j jl by (intro filter_upt_first) auto
    show ?thesis
      by (subst literalLoop.simps) (simp add: Some nxt ih f)
  qed
qed

lemma literalSearch_occurrences:
  assumes "(if cs then sq else lower sq) \<noteq> []"
  shows "literalSearch lower cs sq buf =
     Some (map (\<lambda>k. \<lparr>index = k, length_m = length sq\<rparr>)
            (occurrences (if cs then sq else lower sq) (if cs then buf else lower buf)))"
  using literalLoop_occurrences [OF assms, of "if cs then buf else lower buf" "length sq" 0 "[]"]
  by (simp add: literalSearch_def Let_def indexOf_def occurrences_def)

lemma occurrences_aa: "occurrences ''aa'' ''aaa'' = [0, 1]"
  by code_simp

lemma occurrences_ab: "occurrences ''ab'' ''abab'' = [0, 2]"
  by code_simp

text \<open>
  The matches of a literal search are in ascending order of offset; they lie in the
  buffer when the search is case-sensitive or lower-casing keeps the lengths of buffer
  and query. The MatchSets that replace-all is given by this branch then satisfy what
  its analysis assumes.
\<close>

lemma literalSearch_sorted_in_buffer:
  assumes "(if cs then sq else lower sq) \<noteq> []" and "literalSearch lower cs sq buf = Some ms"
  shows "sorted (map index ms)
       \<and> (cs \<or> (length (lower buf) = length buf \<and> length (lower sq) = length sq) \<longrightarrow>
            (\<forall>m\<in>set ms. index m + length_m m \<le> length buf))"
proof -
  let ?q = "if cs then sq else lower sq"
  let ?t = "if cs then buf else lower buf"
  have ms: "ms = map (\<lambda>k. \<lparr>index = k, length_m = length sq\<rparr>) (occurrences ?q ?t)"
    using literalSearch_occurrences [where cs = cs and sq = sq and lower = lower and buf = buf]
      assms by simp
  have "map index ms = occurrences ?q ?t"
    unfolding ms by (simp add: o_def)
  moreover have "sorted (occurrences ?q ?t)"
    unfolding occurrences_def by (rule sorted_wrt_filter) simp
  moreover have "\<forall>k\<in>set (occurrences ?q ?t). k + length ?q \<le> length ?t"
    by (auto simp: occurrences_def)
  ultimately show ?thesis
    unfolding ms by auto
qed

text \<open>
  Claim C8: in literal mode, with the panel shown and a non-empty query and buffer, the
  matches are all the positions, in ascending order, at which the query occurs in the
  buffer, both lower-cased by the language's \<open>toLowerCase\<close> unless the search is
  case-sensitive; occurrences that overlap are all found, each with the length of the
  query as typed. The first match, if any, becomes the current one. On \<open>aaa\<close> with
  query \<open>aa\<close> the matches are at 0 and 1, case-sensitive or not; on \<open>abAB\<close> with
  query \<open>Ab\<close>, case-insensitive, they are at 0 and 2. What is used of \<open>toLowerCase\<close>
  is that it does not empty the query and, in the examples, its value on the four
  strings: \<open>aaa\<close> and \<open>aa\<close> are kept, \<open>abAB\<close> becomes \<open>abab\<close> and \<open>Ab\<close> becomes \<open>ab\<close>.
\<close>

theorem literal_search_finds_every_occurrence:
  "(showSearch s \<and> \<not> searchRegex s \<and> searchQuery s \<noteq> [] \<and> editorText s \<noteq> []
      \<and> (if searchCaseSensitive s then searchQuery s else lower (searchQuery s)) \<noteq> [] \<longrightarrow>
      searchEffect lower engine s =
        Some (s\<lparr>searchMatches :=
                  map (\<lambda>k. \<lparr>index = k, length_m = length (searchQuery s)\<rparr>)
                    (occurrences
                      (if searchCaseSensitive s then searchQuery s else lower (searchQuery s))
                      (if searchCaseSensitive s then editorText s else lower (editorText s))),
                currentMatchIndex :=
                  (if occurrences
                      (if searchCaseSensitive s then searchQuery s else lower (searchQuery s))
                      (if searchCaseSensitive s then editorText s else lower (editorText s)) = []
                   then -1 else 0)\<rparr>))
   \<and> (cs \<or> (lower ''aaa'' = ''aaa'' \<and> lower ''aa'' = ''aa'') \<longrightarrow>
        literalSearch lower cs ''aa'' ''aaa''
          = Some [\<lparr>index = 0, length_m = 2\<rparr>, \<lparr>index = 1, length_m = 2\<rparr>])
   \<and> (lower ''abAB'' = ''abab'' \<and> lower ''Ab'' = ''ab'' \<longrightarrow>
        literalSearch lower False ''Ab'' ''abAB''
          = Some [\<lparr>index = 0, length_m = 2\<rparr>, \<lparr>index = 2, length_m = 2\<rparr>])"
proof (intro conjI impI)
  assume a: "showSearch s \<and> \<not> searchRegex s \<and> searchQuery s \<noteq> [] \<and> editorText s \<noteq> []
      \<and> (if searchCaseSensitive s then searchQuery s else lower (searchQuery s)) \<noteq> []"
  then have ne: "(if searchCaseSensitive s then searchQuery s else lower (searchQuery s)) \<noteq> []"
    by simp
  show "searchEffect lower engine s =
        Some (s\<lparr>searchMatches :=
                  map (\<lambda>k. \<lparr>index = k, length_m = length (searchQuery s)\<rparr>)
                    (occurrences
                      (if searchCaseSensitive s then searchQuery s else lower (searchQuery s))
                      (if searchCaseSensitive s then editorText s else lower (editorText s))),
                currentMatchIndex :=
                  (if occurrences
                      (if searchCaseSensitive s then searchQuery s else lower (searchQuery s))
                      (if searchCaseSensitive s then editorText s else lower (editorText s)) = []
                   then -1 else 0)\<rparr>)"
    using a literalSearch_occurrences
        [where cs = "searchCaseSensitive s" and sq = "searchQuery s" and lower = lower
           and buf = "editorText s"]
    by (simp add: searchEffect_def)
next
  assume a: "cs \<or> (lower ''aaa'' = ''aaa'' \<and> lower ''aa'' = ''aa'')"
  then have q: "(if cs then ''aa'' else lower ''aa'') = ''aa''"
    and t: "(if cs then ''aaa'' else lower ''aaa'') = ''aaa''" by auto
  from literalSearch_occurrences [where cs = cs and sq = "''aa''" and lower = lower and buf = "''aaa''"]
  show "literalSearch lower cs ''aa'' ''aaa''
          = Some [\<lparr>index = 0, length_m = 2\<rparr>, \<lparr>index = 1, length_m = 2\<rparr>]"
    unfolding q t occurrences_aa by simp
next
  assume a: "lower ''abAB'' = ''abab'' \<and> lower ''Ab'' = ''ab''"
  from literalSearch_occurrences
         [where cs = False and sq = "''Ab''" and lower = lower and buf = "''abAB''"] a
  show "literalSearch lower False ''Ab'' ''abAB''
          = Some [\<lparr>index = 0, length_m = 2\<rparr>, \<lparr>index = 2, length_m = 2\<rparr>]"
    by (simp add: occurrences_ab)
qed

theorem literal_search_finds_every_occurrence_witness:
  "showSearch (initial\<lparr>tabs := [newTab ''a.txt'' ''abAB''], activeTabIndex := 0,
                       showSearch := True, searchQuery := ''Ab''\<rparr>)
   \<and> editorText (initial\<lparr>tabs := [newTab ''a.txt'' ''abAB''], activeTabIndex := 0,
                       showSearch := True, searchQuery := ''Ab''\<rparr>) = ''abAB''
   \<and> searchEffect (\<lambda>x. if x = ''abAB'' then ''abab'' else if x = ''Ab'' then ''ab'' else x)
        (\<lambda>q f. None)
        (initial\<lparr>tabs := [newTab ''a.txt'' ''abAB''], activeTabIndex := 0,
                 showSearch := True, searchQuery := ''Ab''\<rparr>)
     = Some (initial\<lparr>tabs := [newTab ''a.txt'' ''abAB''], activeTabIndex := 0,
                     showSearch := True, searchQuery := ''Ab'',
                     searchMatches := [\<lparr>index = 0, length_m = 2\<rparr>, \<lparr>index = 2, length_m = 2\<rparr>],
                     currentMatchIndex := 0\<rparr>)
   \<and> literalSearch (\<lambda>x. if x = ''abAB'' then ''abab'' else if x = ''Ab'' then ''ab'' else x)
        True ''aa'' ''aaa'' = Some [\<lparr>index = 0, length_m = 2\<rparr>, \<lparr>index = 1, length_m = 2\<rparr>]
   \<and> literalSearch (\<lambda>x. if x = ''abAB'' then ''abab'' else if x = ''Ab'' then ''ab'' else x)
        False ''Ab'' ''abAB'' = Some [\<lparr>index = 0, length_m = 2\<rparr>, \<lparr>index = 2, length_m = 2\<rparr>]"
  using literal_search_finds_every_occurrence
      [of "initial\<lparr>tabs := [newTab ''a.txt'' ''abAB''], activeTabIndex := 0,
                   showSearch := True, searchQuery := ''Ab''\<rparr>"
          "\<lambda>x. if x = ''abAB'' then ''abab'' else if x = ''Ab'' then ''ab'' else x"
          "\<lambda>q f. None" True]
  by (simp add: occurrences_ab initial_def editorText_def activeTab_def js_index_def newTab_def)

lemma advancing_no_match_at_end:
  "advancing re buf \<Longrightarrow> length buf \<le> k \<Longrightarrow> re buf k = None"
proof (cases "re buf k")
  case None
  then show ?thesis by simp
next
  case (Some p)
  assume a: "advancing re buf" and k: "length buf \<le> k"
  obtain i l where p: "p = (i, l)" by (cases p)
  from a Some p have "k \<le> i \<and> 0 < l \<and> i + l \<le> length buf"
    unfolding advancing_def by blast
  with k show ?thesis by simp
qed

lemma regexLoop_successive:
  "advancing re buf \<Longrightarrow> length buf - k \<le> n \<Longrightarrow>
   regexLoop re buf k acc = Some (acc @ successive re buf k n)"
proof (induction n arbitrary: k acc)
  case 0
  then have "re buf k = None" by (intro advancing_no_match_at_end) auto
  then show ?case by (subst regexLoop.simps) simp
next
  case (Suc n)
  show ?case
  proof (cases "re buf k")
    case None
    then show ?thesis by (subst regexLoop.simps) simp
  next
    case (Some p)
    obtain i l where p: "p = (i, l)" by (cases p)
    from Suc.prems(1) Some p have b: "k \<le> i" "0 < l" "i + l \<le> length buf"
      unfolding advancing_def by blast+
    have "length buf - (i + l) \<le> n" using b Suc.prems(2) by arith
    from Suc.IH [OF Suc.prems(1) this, of "acc @ [\<lparr>index = i, length_m = l\<rparr>]"]
    show ?thesis by (subst regexLoop.simps) (simp add: Some p)
  qed
qed

lemma spans_ok_successive:
  "advancing re buf \<Longrightarrow> spans_ok k buf (successive re buf k n)"
proof (induction n arbitrary: k)
  case 0
  then show ?case by simp
next
  case (Suc n)
  show ?case
  proof (cases "re buf k")
    case None
    then show ?thesis by simp
  next
    case (Some p)
    obtain i l where p: "p = (i, l)" by (cases p)
    from Suc.prems Some p have b: "k \<le> i" "0 < l" "i + l \<le> length buf"
      unfolding advancing_def by blast+
    with Suc.IH [OF Suc.prems, of "i + l"] Some p show ?thesis by simp
  qed
qed

text \<open>
  Claim C9 says that regex mode compiles the query with the global and the multiline
  flag. The flags the effect passes to \<open>new RegExp\<close> are \<open>g\<close> when the search is
  case-sensitive and \<open>gi\<close> otherwise: the multiline flag \<open>m\<close> is in neither.
\<close>

theorem regex_flags_counterexample:
  "regexFlags True = ''g'' \<and> regexFlags False = ''gi''
   \<and> CHR ''m'' \<notin> set (regexFlags True) \<and> CHR ''m'' \<notin> set (regexFlags False)"
  by (simp add: regexFlags_def)

text \<open>
  Claim C9, as amended: regex mode compiles the query with the global flag, and with the
  ignore-case flag unless the search is case-sensitive; the multiline flag is never
  passed. When the pattern compiles and each of its matches on the buffer starts at or
  after the position searched from, is non-empty and lies in the buffer, the MatchSet is
  the sequence of the engine's successive matches, each search starting where the
  previous match ended; these matches are in ascending order and do not overlap, and the
  first one, if any, becomes the current match.
\<close>

theorem regex_search_global_flag_only:
  "CHR ''g'' \<in> set (regexFlags cs) \<and> CHR ''m'' \<notin> set (regexFlags cs)
   \<and> (CHR ''i'' \<in> set (regexFlags cs)) = (\<not> cs)
   \<and> (showSearch s \<and> searchRegex s \<and> searchQuery s \<noteq> [] \<and> editorText s \<noteq> []
        \<and> engine (searchQuery s) (regexFlags (searchCaseSensitive s)) = Some re
        \<and> advancing re (editorText s) \<longrightarrow>
          searchEffect lower engine s =
            Some (s\<lparr>searchMatches := successive re (editorText s) 0 (length (editorText s)),
                    currentMatchIndex :=
                      (if successive re (editorText s) 0 (length (editorText s)) = [] then -1 else 0)\<rparr>)
        \<and> spans_ok 0 (editorText s) (successive re (editorText s) 0 (length (editorText s))))"
proof (intro conjI impI)
  assume a: "showSearch s \<and> searchRegex s \<and> searchQuery s \<noteq> [] \<and> editorText s \<noteq> []
        \<and> engine (searchQuery s) (regexFlags (searchCaseSensitive s)) = Some re
        \<and> advancing re (editorText s)"
  then have adv: "advancing re (editorText s)" by simp
  have l: "regexLoop re (editorText s) 0 [] = Some (successive re (editorText s) 0 (length (editorText s)))"
    using regexLoop_successive [OF adv, of 0 "length (editorText s)" "[]"] by simp
  show "searchEffect lower engine s =
            Some (s\<lparr>searchMatches := successive re (editorText s) 0 (length (editorText s)),
                    currentMatchIndex :=
                      (if successive re (editorText s) 0 (length (editorText s)) = [] then -1 else 0)\<rparr>)"
    using a by (simp add: searchEffect_def regexSearch_def l)
  show "spans_ok 0 (editorText s) (successive re (editorText s) 0 (length (editorText s)))"
    using adv by (rule spans_ok_successive)
qed (simp_all add: regexFlags_def)

theorem regex_search_global_flag_only_witness:
  "advancing (\<lambda>buf k. if k < length buf then Some (k, 1) else None) ''ab''
   \<and> searchEffect (\<lambda>x. x) (\<lambda>q f. if f = ''gi'' then Some (\<lambda>buf k. if k < length buf then Some (k, 1) else None) else None)
        (initial\<lparr>tabs := [newTab ''a.txt'' ''ab''], activeTabIndex := 0,
                 showSearch := True, searchRegex := True, searchQuery := ''.''\<rparr>)
     = Some (initial\<lparr>tabs := [newTab ''a.txt'' ''ab''], activeTabIndex := 0,
                     showSearch := True, searchRegex := True, searchQuery := ''.'',
                     searchMatches := [\<lparr>index = 0, length_m = 1\<rparr>, \<lparr>index = 1, length_m = 1\<rparr>],
                     currentMatchIndex := 0\<rparr>)"
proof -
  have adv: "advancing (\<lambda>buf k. if k < length buf then Some (k, 1) else None) ''ab''"
    by (auto simp: advancing_def split: if_splits)
  have et: "editorText (initial\<lparr>tabs := [newTab ''a.txt'' ''ab''], activeTabIndex := 0,
                 showSearch := True, searchRegex := True, searchQuery := ''.''\<rparr>) = ''ab''"
    by (simp add: initial_def editorText_def activeTab_def js_index_def newTab_def)
  have su: "successive (\<lambda>buf k. if k < length buf then Some (k, 1) else None) ''ab'' 0 (length ''ab'')
            = [\<lparr>index = 0, length_m = 1\<rparr>, \<lparr>index = 1, length_m = 1\<rparr>]"
    by (simp add: numeral_2_eq_2)
  show ?thesis
    using regex_search_global_flag_only
      [of False "initial\<lparr>tabs := [newTab ''a.txt'' ''ab''], activeTabIndex := 0,
                 showSearch := True, searchRegex := True, searchQuery := ''.''\<rparr>"
          "\<lambda>q f. if f = ''gi'' then Some (\<lambda>buf k. if k < length buf then Some (k, 1) else None) else None"
          "\<lambda>buf k. if k < length buf then Some (k, 1) else None" "\<lambda>x. x"]
      adv
    unfolding et su
    by (simp add: regexFlags_def) (simp add: initial_def)
qed

lemma timer_inv_cong:
  "nextTimerId s' = nextTimerId s \<Longrightarrow> undoDebounceTimer s' = undoDebounceTimer s \<Longrightarrow>
   timers s' = timers s \<Longrightarrow> timer_inv s' = timer_inv s"
  by (simp add: timer_inv_def cong: option.case_cong)

lemma timer_inv_pending:
  assumes "timer_inv s"
  shows "(case undoDebounceTimer s of
            None \<Rightarrow> timers s
          | Some tid \<Rightarrow> if tid \<noteq> 0 then clearTimeout tid (timers s) else timers s) = []"
proof (cases "undoDebounceTimer s")
  case None
  with assms show ?thesis by (simp add: timer_inv_def)
next
  case (Some tid)
  with assms have "timers s = [] \<or> map handle (timers s) = [tid]" and "0 < tid"
    by (auto simp: timer_inv_def)
  then show ?thesis
    using Some by (cases "timers s") (auto simp: clearTimeout_def)
qed

lemma timers_after_edit:
  assumes "timer_inv s" and "activeTab s = Some t"
  shows "timers (handleTabContentChange c s) =
           [\<lparr>handle = nextTimerId s, delay = 300,
             callback = \<lparr>c_tabs = tabs s, c_activeTabIndex = activeTabIndex s, c_newContent = c\<rparr>\<rparr>]"
  using assms(2) timer_inv_pending [OF assms(1)]
  by (simp add: handleTabContentChange_def Let_def)

lemma timer_inv_edit:
  assumes "timer_inv s"
  shows "timer_inv (handleTabContentChange c s)"
proof (cases "activeTab s")
  case None
  with assms show ?thesis by (simp add: handleTabContentChange_def)
next
  case (Some t)
  have n: "0 < nextTimerId s" using assms by (simp add: timer_inv_def)
  have "nextTimerId (handleTabContentChange c s) = nextTimerId s + 1"
       "undoDebounceTimer (handleTabContentChange c s) = Some (nextTimerId s)"
    using Some by (simp_all add: handleTabContentChange_def Let_def)
  with timers_after_edit [OF assms Some, of c] n show ?thesis
    by (simp add: timer_inv_def)
qed

lemma timerCallback_frame:
  "nextTimerId (timerCallback c s) = nextTimerId s"
  "undoDebounceTimer (timerCallback c s) = undoDebounceTimer s"
  "timers (timerCallback c s) = timers s"
  by (simp_all add: timerCallback_def Let_def split: option.splits)

lemma timer_inv_fire:
  assumes "timer_inv s"
  shows "timer_inv (fireTimer tid s)"
proof (cases "List.find (\<lambda>t. handle t = tid) (timers s)")
  case None
  with assms show ?thesis by (simp add: fireTimer_def)
next
  case (Some tm)
  then have ne: "timers s \<noteq> []" by auto
  obtain r where r: "undoDebounceTimer s = Some r" "0 < r" "r < nextTimerId s" "map handle (timers s) = [r]"
    using assms ne by (auto simp: timer_inv_def split: option.splits)
  then obtain x where x: "timers s = [x]" "handle x = r" by (cases "timers s") auto
  with Some have "tid = r" by (auto split: if_splits)
  then have "clearTimeout tid (timers s) = []" using x by (simp add: clearTimeout_def)
  then have "timer_inv (s\<lparr>timers := clearTimeout tid (timers s)\<rparr>)"
    using assms r by (simp add: timer_inv_def)
  then have "timer_inv (timerCallback (callback tm) (s\<lparr>timers := clearTimeout tid (timers s)\<rparr>))"
    by (simp add: timer_inv_cong [OF timerCallback_frame])
  then show ?thesis using Some by (simp add: fireTimer_def)
qed

lemma timer_inv_step: "timer_inv s \<Longrightarrow> timer_inv (step s e)"
proof (cases e)
  case (Edit c)
  assume "timer_inv s" then show ?thesis using Edit by (simp add: timer_inv_edit)
next
  case (TimerFires tid)
  assume "timer_inv s" then show ?thesis using TimerFires by (simp add: timer_inv_fire)
next
  case Undo
  have "timer_inv (handleUndo s) = timer_inv s"
    by (rule timer_inv_cong) (simp_all add: handleUndo_def Let_def split: option.splits)
  moreover assume "timer_inv s"
  ultimately show ?thesis using Undo by simp
next
  case Redo
  have "timer_inv (handleRedo s) = timer_inv s"
    by (rule timer_inv_cong) (simp_all add: handleRedo_def Let_def split: option.splits)
  moreover assume "timer_inv s"
  ultimately show ?thesis using Redo by simp
next
  case (CloseTab i)
  have "timer_inv (handleCloseTab i s) = timer_inv s"
    by (rule timer_inv_cong) (simp_all add: handleCloseTab_def Let_def)
  moreover assume "timer_inv s"
  ultimately show ?thesis using CloseTab by simp
next
  case (SelectTab i)
  have "timer_inv (s\<lparr>activeTabIndex := i\<rparr>) = timer_inv s"
    by (rule timer_inv_cong) simp_all
  moreover assume "timer_inv s"
  ultimately show ?thesis using SelectTab by simp
next
  case (OpenFile r)
  have "timer_inv (handleOpenFile (tabs s) r s) = timer_inv s"
    by (rule timer_inv_cong) (simp_all add: handleOpenFile_def Let_def split: option.splits prod.splits)
  moreover assume "timer_inv s"
  ultimately show ?thesis using OpenFile by simp
next
  case (FileClick it r)
  have "timer_inv (handleFileClick (tabs s) it r s) = timer_inv s"
    by (rule timer_inv_cong) (simp_all add: handleFileClick_def Let_def split: option.splits)
  moreover assume "timer_inv s"
  ultimately show ?thesis using FileClick by simp
next
  case (SaveFile ok)
  have "timer_inv (handleSaveFile s ok s) = timer_inv s"
    by (rule timer_inv_cong) (simp_all add: handleSaveFile_def split: option.splits)
  moreover assume "timer_inv s"
  ultimately show ?thesis using SaveFile by simp
next
  case ToggleEdit
  have "timer_inv (handleToggleEdit s) = timer_inv s"
    by (rule timer_inv_cong) (simp_all add: handleToggleEdit_def split: option.splits)
  moreover assume "timer_inv s"
  ultimately show ?thesis using ToggleEdit by simp
next
  case Replace
  assume a: "timer_inv s"
  have "\<And>c i. timer_inv ((handleTabContentChange c s)\<lparr>currentMatchIndex := i\<rparr>)
                = timer_inv (handleTabContentChange c s)"
    by (rule timer_inv_cong) simp_all
  with a timer_inv_edit [OF a] Replace show ?thesis by (simp add: handleReplace_def Let_def)
next
  case ReplaceAll
  assume a: "timer_inv s"
  have "\<And>c i. timer_inv ((handleTabContentChange c s)\<lparr>currentMatchIndex := i\<rparr>)
                = timer_inv (handleTabContentChange c s)"
    by (rule timer_inv_cong) simp_all
  with a timer_inv_edit [OF a] ReplaceAll show ?thesis by (simp add: handleReplaceAll_def Let_def)
qed

lemma timer_inv_run: "timer_inv s \<Longrightarrow> timer_inv (run s es)"
  by (induction es arbitrary: s) (simp_all add: run_def timer_inv_step)

lemma timer_inv_initial: "timer_inv initial"
  by (simp add: timer_inv_def initial_def)

lemma timer_inv_at_most_one:
  "timer_inv s \<Longrightarrow> length (timers s) \<le> 1 \<and> map delay (timers s) = replicate (length (timers s)) 300"
  by (cases "timers s") (auto simp: timer_inv_def split: option.splits)

section \<open>Debounced history\<close>

lemmas handler_defs = run_def initial_def handleTabContentChange_def handleFileClick_def
  fireTimer_def timerCallback_def handleUndo_def handleRedo_def
  activeTab_def js_index_def findIndex_def newTab_def clearTimeout_def slice_last_def Let_def

text \<open>
  Claim C2: when the debounce timer fires and commits a snapshot, only the two stacks of
  the session change; its content stays the value of the last edit and it stays modified.
  The callback builds the array it passes to \<open>setTabs\<close> from the \<open>tabs\<close> of the render in
  which the edit was made, so the commit writes back the tab as it was before the edit:
  after opening a file with content \<open>x\<close> and editing it to \<open>xa\<close>, the firing timer
  sets the content back to \<open>x\<close> and the modified flag back to false, while it pushes
  \<open>x\<close> on the undo stack.
\<close>

theorem debounce_commit_reverts_edit:
  "map content (tabs (run initial
      [FileClick \<lparr>item_path = ''a.txt'', is_directory = False\<rparr> (Some ''x''), Edit ''xa''])) = [''xa'']
   \<and> map isModified (tabs (run initial
      [FileClick \<lparr>item_path = ''a.txt'', is_directory = False\<rparr> (Some ''x''), Edit ''xa''])) = [True]
   \<and> map content (tabs (run initial
      [FileClick \<lparr>item_path = ''a.txt'', is_directory = False\<rparr> (Some ''x''), Edit ''xa'', TimerFires 1])) = [''x'']
   \<and> map isModified (tabs (run initial
      [FileClick \<lparr>item_path = ''a.txt'', is_directory = False\<rparr> (Some ''x''), Edit ''xa'', TimerFires 1])) = [False]
   \<and> map undoStack (tabs (run initial
      [FileClick \<lparr>item_path = ''a.txt'', is_directory = False\<rparr> (Some ''x''), Edit ''xa'', TimerFires 1])) = [[''x'']]"
  by (simp add: handler_defs)

text \<open>
  Claim C3 says that each session has its own pending timer, which an edit to another
  session does not cancel. There is one ref for the whole component: with two tabs, an
  edit to the first, then a switch to the second and an edit there, the only pending
  timeout is the second edit's, for tab index 1; the first session's timeout (id 1) is
  gone, and when everything has fired its undo stack is still empty.
\<close>

theorem edit_in_other_session_cancels_timer_counterexample:
  "map content (tabs (run initial
      [FileClick \<lparr>item_path = ''a'', is_directory = False\<rparr> (Some ''x''),
       FileClick \<lparr>item_path = ''b'', is_directory = False\<rparr> (Some ''y''),
       SelectTab 0, Edit ''x1'', SelectTab 1, Edit ''y1''])) = [''x1'', ''y1'']
   \<and> map handle (timers (run initial
      [FileClick \<lparr>item_path = ''a'', is_directory = False\<rparr> (Some ''x''),
       FileClick \<lparr>item_path = ''b'', is_directory = False\<rparr> (Some ''y''),
       SelectTab 0, Edit ''x1'', SelectTab 1, Edit ''y1''])) = [2]
   \<and> map (\<lambda>t. c_activeTabIndex (callback t)) (timers (run initial
      [FileClick \<lparr>item_path = ''a'', is_directory = False\<rparr> (Some ''x''),
       FileClick \<lparr>item_path = ''b'', is_directory = False\<rparr> (Some ''y''),
       SelectTab 0, Edit ''x1'', SelectTab 1, Edit ''y1''])) = [1]
   \<and> map undoStack (tabs (run initial
      [FileClick \<lparr>item_path = ''a'', is_directory = False\<rparr> (Some ''x''),
       FileClick \<lparr>item_path = ''b'', is_directory = False\<rparr> (Some ''y''),
       SelectTab 0, Edit ''x1'', SelectTab 1, Edit ''y1'', TimerFires 1, TimerFires 2])) = [[], [''y'']]"
  by (simp add: handler_defs)

text \<open>
  Claim C3, as amended: the workspace as a whole has at most one pending debounce timer,
  with delay 300 ms; an edit made while a timer is pending, to the same session or to
  another one, cancels it and schedules exactly one new timer, for the session that is
  active at the time of the edit.
\<close>

theorem one_debounce_timer_per_workspace:
  "length (timers (run initial es)) \<le> 1
   \<and> map delay (timers (run initial es)) = replicate (length (timers (run initial es))) 300
   \<and> (activeTab (run initial es) = Some t \<longrightarrow>
        timers (handleTabContentChange c (run initial es)) =
          [\<lparr>handle = nextTimerId (run initial es), delay = 300,
            callback = \<lparr>c_tabs = tabs (run initial es),
                         c_activeTabIndex = activeTabIndex (run initial es), c_newContent = c\<rparr>\<rparr>])"
proof -
  have inv: "timer_inv (run initial es)"
    using timer_inv_initial by (rule timer_inv_run)
  show ?thesis
    using timer_inv_at_most_one [OF inv] timers_after_edit [OF inv, of t c] by simp
qed

theorem one_debounce_timer_per_workspace_witness:
  "activeTab (run initial
      [FileClick \<lparr>item_path = ''a'', is_directory = False\<rparr> (Some ''x''),
       FileClick \<lparr>item_path = ''b'', is_directory = False\<rparr> (Some ''y''),
       SelectTab 0, Edit ''x1'', SelectTab 1]) = Some (newTab ''b'' ''y'')
   \<and> map handle (timers (run initial
      [FileClick \<lparr>item_path = ''a'', is_directory = False\<rparr> (Some ''x''),
       FileClick \<lparr>item_path = ''b'', is_directory = False\<rparr> (Some ''y''),
       SelectTab 0, Edit ''x1'', SelectTab 1])) = [1]
   \<and> map handle (timers (handleTabContentChange ''y1'' (run initial
      [FileClick \<lparr>item_path = ''a'', is_directory = False\<rparr> (Some ''x''),
       FileClick \<lparr>item_path = ''b'', is_directory = False\<rparr> (Some ''y''),
       SelectTab 0, Edit ''x1'', SelectTab 1]))) = [2]
   \<and> map (\<lambda>t. c_activeTabIndex (callback t)) (timers (handleTabContentChange ''y1'' (run initial
      [FileClick \<lparr>item_path = ''a'', is_directory = False\<rparr> (Some ''x''),
       FileClick \<lparr>item_path = ''b'', is_directory = False\<rparr> (Some ''y''),
       SelectTab 0, Edit ''x1'', SelectTab 1]))) = [1]"
  using one_debounce_timer_per_workspace
    [of "[FileClick \<lparr>item_path = ''a'', is_directory = False\<rparr> (Some ''x''),
          FileClick \<lparr>item_path = ''b'', is_directory = False\<rparr> (Some ''y''),
          SelectTab 0, Edit ''x1'', SelectTab 1]" "newTab ''b'' ''y''" "''y1''"]
  by (simp add: handler_defs)

text \<open>
  Claim C5 says that the redo stack is empty right after any edit other than undo and
  redo. The edit itself leaves the redo stack alone: after an undo, the next edit still
  has the undone content on the redo stack. And when that edit's timer is cancelled by an
  edit to another tab, the redo stack is never cleared: it is still there when every
  timer has fired.
\<close>

theorem redo_stack_survives_edit_counterexample:
  "map redoStack (tabs (run initial
      [FileClick \<lparr>item_path = ''a'', is_directory = False\<rparr> (Some ''x''),
       Edit ''xy'', TimerFires 1, Undo, Edit ''xz''])) = [[''x'']]
   \<and> map redoStack (tabs (run initial
      [FileClick \<lparr>item_path = ''a'', is_directory = False\<rparr> (Some ''x''),
       FileClick \<lparr>item_path = ''b'', is_directory = False\<rparr> (Some ''y''),
       SelectTab 0, Edit ''xy'', TimerFires 1, Undo, Edit ''xz'', SelectTab 1, Edit ''yz'',
       TimerFires 2, TimerFires 3])) = [[''x''], []]
   \<and> timers (run initial
      [FileClick \<lparr>item_path = ''a'', is_directory = False\<rparr> (Some ''x''),
       FileClick \<lparr>item_path = ''b'', is_directory = False\<rparr> (Some ''y''),
       SelectTab 0, Edit ''xy'', TimerFires 1, Undo, Edit ''xz'', SelectTab 1, Edit ''yz'',
       TimerFires 2, TimerFires 3]) = []"
  by (simp add: handler_defs)

text \<open>
  Claim C5, as amended: an edit other than undo and redo does not itself change the redo
  stack of the session; when the timer which that edit scheduled fires, the redo stack
  of the session is empty if the edit changed the content, and is left as it was if the
  new content equals the content before the edit.
\<close>

theorem edit_clears_redo_only_on_commit:
  assumes "timer_inv s" and "activeTab s = Some t"
  shows "map_option redoStack (activeTab (handleTabContentChange nc s)) = Some (redoStack t)
       \<and> (content t \<noteq> nc \<longrightarrow>
            map_option redoStack (activeTab (fireTimer (nextTimerId s) (handleTabContentChange nc s))) = Some [])
       \<and> (content t = nc \<longrightarrow>
            map_option redoStack (activeTab (fireTimer (nextTimerId s) (handleTabContentChange nc s)))
              = Some (redoStack t))"
proof -
  let ?s1 = "handleTabContentChange nc s"
  let ?i = "activeTabIndex s"
  let ?c = "\<lparr>c_tabs = tabs s, c_activeTabIndex = ?i, c_newContent = nc\<rparr>"
  from activeTab_SomeD [OF assms(2)]
  have i: "0 \<le> ?i" "nat ?i < length (tabs s)" "t = tabs s ! nat ?i" by auto
  have tabs1: "tabs ?s1 = (tabs s)[nat ?i := t\<lparr>content := nc, isModified := True\<rparr>]"
    and idx1: "activeTabIndex ?s1 = ?i"
    using assms(2) by (simp_all add: handleTabContentChange_def Let_def)
  have tm1: "timers ?s1 = [\<lparr>handle = nextTimerId s, delay = 300, callback = ?c\<rparr>]"
    using assms by (rule timers_after_edit)
  have act1: "activeTab ?s1 = Some (t\<lparr>content := nc, isModified := True\<rparr>)"
    using i by (simp add: activeTab_def js_index_def tabs1 idx1)
  have fire: "fireTimer (nextTimerId s) ?s1 = timerCallback ?c (?s1\<lparr>timers := []\<rparr>)"
    by (simp add: fireTimer_def tm1 clearTimeout_def)
  have cl: "js_index (c_tabs ?c) (c_activeTabIndex ?c) = Some t"
    using i by (simp add: js_index_def)
  have changed: "content t \<noteq> nc \<Longrightarrow>
      activeTab (timerCallback ?c (?s1\<lparr>timers := []\<rparr>))
        = Some (t\<lparr>undoStack := slice_last 50 (undoStack t @ [content t]), redoStack := []\<rparr>)"
    using i cl by (simp add: timerCallback_def Let_def activeTab_def js_index_def idx1)
  have same: "content t = nc \<Longrightarrow>
      activeTab (timerCallback ?c (?s1\<lparr>timers := []\<rparr>)) = Some (t\<lparr>content := nc, isModified := True\<rparr>)"
    using i cl act1 by (simp add: timerCallback_def Let_def activeTab_def idx1)
  show ?thesis
    using act1 changed same by (simp add: fire)
qed

theorem edit_clears_redo_only_on_commit_witness:
  "timer_inv (initial\<lparr>tabs := [(newTab ''a'' ''x'')\<lparr>redoStack := [''xy'']\<rparr>], activeTabIndex := 0\<rparr>)
   \<and> map_option redoStack (activeTab (handleTabContentChange ''xz''
        (initial\<lparr>tabs := [(newTab ''a'' ''x'')\<lparr>redoStack := [''xy'']\<rparr>], activeTabIndex := 0\<rparr>)))
      = Some [''xy'']
   \<and> map_option redoStack (activeTab (fireTimer 1 (handleTabContentChange ''xz''
        (initial\<lparr>tabs := [(newTab ''a'' ''x'')\<lparr>redoStack := [''xy'']\<rparr>], activeTabIndex := 0\<rparr>))))
      = Some []
   \<and> map_option redoStack (activeTab (fireTimer 1 (handleTabContentChange ''x''
        (initial\<lparr>tabs := [(newTab ''a'' ''x'')\<lparr>redoStack := [''xy'']\<rparr>], activeTabIndex := 0\<rparr>))))
      = Some [''xy'']"
  using edit_clears_redo_only_on_commit
      [of "initial\<lparr>tabs := [(newTab ''a'' ''x'')\<lparr>redoStack := [''xy'']\<rparr>], activeTabIndex := 0\<rparr>"
          "(newTab ''a'' ''x'')\<lparr>redoStack := [''xy'']\<rparr>" "''xz''"]
    edit_clears_redo_only_on_commit
      [of "initial\<lparr>tabs := [(newTab ''a'' ''x'')\<lparr>redoStack := [''xy'']\<rparr>], activeTabIndex := 0\<rparr>"
          "(newTab ''a'' ''x'')\<lparr>redoStack := [''xy'']\<rparr>" "''x''"]
  by (simp add: timer_inv_def initial_def activeTab_def js_index_def newTab_def)

end
